theory Spec2Isabelle
  imports Main
begin

section \<open>JavaScript strings\<close>

text \<open>
  A JavaScript string is a sequence of UTF-16 code units; \<open>length\<close>, indexing, \<open>trim\<close> and
  the regular expressions of the parser (none has the \<open>u\<close> flag) all work on code units.
  A code unit is modelled as a natural number, a string as a list of them.  The bullet
  \<open>U+2022\<close> is 8226, the en dash \<open>U+2013\<close> is 8211 and the em dash \<open>U+2014\<close> is 8212.
\<close>

type_synonym jsstring = "nat list"

definition js :: "string \<Rightarrow> jsstring" where
  "js s = map of_char s"

definition bullet :: nat where
  "bullet = 8226"

definition isDigit :: "nat \<Rightarrow> bool" where
  "isDigit c = (48 \<le> c \<and> c \<le> 57)"

definition isUpperAZ :: "nat \<Rightarrow> bool" where
  "isUpperAZ c = (65 \<le> c \<and> c \<le> 90)"

definition isLowerAZ :: "nat \<Rightarrow> bool" where
  "isLowerAZ c = (97 \<le> c \<and> c \<le> 122)"

definition isLetter :: "nat \<Rightarrow> bool" where
  "isLetter c = (isUpperAZ c \<or> isLowerAZ c)"

text \<open>The class \<open>\s\<close>, which is also what \<open>trim\<close> strips: WhiteSpace and LineTerminator.\<close>

definition isWs :: "nat \<Rightarrow> bool" where
  "isWs c = (c = 9 \<or> c = 10 \<or> c = 11 \<or> c = 12 \<or> c = 13 \<or> c = 32 \<or> c = 160 \<or> c = 5760
     \<or> (8192 \<le> c \<and> c \<le> 8202) \<or> c = 8232 \<or> c = 8233 \<or> c = 8239 \<or> c = 8287
     \<or> c = 12288 \<or> c = 65279)"

text \<open>The class of the date patterns: en dash, hyphen, em dash.\<close>

definition isDash :: "nat \<Rightarrow> bool" where
  "isDash c = (c = 8211 \<or> c = 45 \<or> c = 8212)"

text \<open>The class \<open>.\<close>: everything but the four line terminators.\<close>

definition isDot :: "nat \<Rightarrow> bool" where
  "isDot c = (c \<noteq> 10 \<and> c \<noteq> 13 \<and> c \<noteq> 8232 \<and> c \<noteq> 8233)"

definition trim :: "jsstring \<Rightarrow> jsstring" where
  "trim s = rev (dropWhile isWs (rev (dropWhile isWs s)))"

definition asciiLower :: "nat \<Rightarrow> nat" where
  "asciiLower c = (if isUpperAZ c then c + 32 else c)"

definition asciiUpper :: "nat \<Rightarrow> nat" where
  "asciiUpper c = (if isLowerAZ c then c - 32 else c)"

text \<open>
  Code units whose case mapping is the ASCII one in every context: ASCII itself, white
  space, and the bullet and dashes of the patterns (they have no case).
\<close>

definition plainCU :: "nat \<Rightarrow> bool" where
  "plainCU c = (c < 128 \<or> isWs c \<or> c = 8211 \<or> c = 8212 \<or> c = 8226)"

definition startsWith :: "jsstring \<Rightarrow> jsstring \<Rightarrow> bool" where
  "startsWith s p = (take (length p) s = p)"

fun includesStr :: "jsstring \<Rightarrow> jsstring \<Rightarrow> bool" where
  "includesStr [] sub = (sub = [])"
| "includesStr (c # cs) sub = (startsWith (c # cs) sub \<or> includesStr cs sub)"

text \<open>\<open>s.slice(a, b)\<close> and \<open>s.substring(a, b)\<close> for \<open>0 \<le> a\<close>, and \<open>xs.slice(a, b)\<close> on arrays.\<close>

definition slice :: "'a list \<Rightarrow> nat \<Rightarrow> nat \<Rightarrow> 'a list" where
  "slice s a b = take (b - a) (drop a s)"

text \<open>\<open>xs.join(sep)\<close>.\<close>

fun join :: "jsstring \<Rightarrow> jsstring list \<Rightarrow> jsstring" where
  "join sep [] = []"
| "join sep [x] = x"
| "join sep (x # y # ys) = x @ sep @ join sep (y # ys)"

text \<open>
  \<open>s.split(r)\<close> for the separators the parser uses.  None of them matches the empty
  string, so a piece ends exactly where a separator starts; a separator at the start or
  at the end of \<open>s\<close> leaves an empty piece there, and the empty string splits into one
  empty piece.
\<close>

fun consHead :: "nat \<Rightarrow> jsstring list \<Rightarrow> jsstring list" where
  "consHead c [] = [[c]]"
| "consHead c (x # xs) = (c # x) # xs"

text \<open>A separator that is one code unit of a class: \<open>split('|')\<close>, \<open>split('\n')\<close>, \<open>split(/\n|:/)\<close>.\<close>

fun splitAt :: "(nat \<Rightarrow> bool) \<Rightarrow> jsstring \<Rightarrow> jsstring list" where
  "splitAt sep [] = [[]]"
| "splitAt sep (c # cs) = (if sep c then [] # splitAt sep cs else consHead c (splitAt sep cs))"

text \<open>
  A separator that is a run of code units of a class, as long as it can be:
  \<open>split(/\s+/)\<close>, \<open>split(/[,|]+/)\<close>.  The flag says that the code unit before was a separator.
\<close>

fun splitRunsFrom :: "(nat \<Rightarrow> bool) \<Rightarrow> bool \<Rightarrow> jsstring \<Rightarrow> jsstring list" where
  "splitRunsFrom sep prev [] = [[]]"
| "splitRunsFrom sep prev (c # cs) =
     (if sep c then (if prev then splitRunsFrom sep True cs else [] # splitRunsFrom sep True cs)
      else consHead c (splitRunsFrom sep False cs))"

definition splitRuns :: "(nat \<Rightarrow> bool) \<Rightarrow> jsstring \<Rightarrow> jsstring list" where
  "splitRuns sep s = splitRunsFrom sep False s"

text \<open>\<open>text.split(/\r?\n/)\<close>: a carriage return is part of the separator only before a line feed.\<close>

fun splitNewlines :: "jsstring \<Rightarrow> jsstring list" where
  "splitNewlines [] = [[]]"
| "splitNewlines [c] = (if c = 10 then [[], []] else [[c]])"
| "splitNewlines (c # d # cs) =
     (if c = 10 then [] # splitNewlines (d # cs)
      else if c = 13 \<and> d = 10 then [] # splitNewlines cs
      else consHead c (splitNewlines (d # cs)))"

text \<open>The separators of the lists: \<open>[,|]\<close> with and without the bullet.\<close>

definition isListSep :: "nat \<Rightarrow> bool" where
  "isListSep c = (c = 44 \<or> c = 124 \<or> c = 8226)"

definition isCommaBar :: "nat \<Rightarrow> bool" where
  "isCommaBar c = (c = 44 \<or> c = 124)"

text \<open>\<open>[...new Set(xs)]\<close>: the first occurrence of each element, in order.\<close>

definition uniq :: "'a list \<Rightarrow> 'a list" where
  "uniq xs = rev (remdups (rev xs))"

text \<open>The line normalizer: \<open>text.split(/\r?\n/).map(l => l.trim()).filter(Boolean)\<close>.\<close>

definition normalizeLines :: "jsstring \<Rightarrow> jsstring list" where
  "normalizeLines text = filter (\<lambda>l. l \<noteq> []) (map trim (splitNewlines text))"

section \<open>Libraries\<close>

text \<open>
  The parser calls three libraries that are not part of the repository, and the Unicode
  case mappings of the JavaScript engine.  They are parameters of the model:
  \<^item> \<open>ucLower\<close>, \<open>ucUpper\<close>: \<open>toLowerCase\<close> and \<open>toUpperCase\<close> on a string that has a code
    unit outside \<open>plainCU\<close>;
  \<^item> \<open>fuzz_ratio\<close>, \<open>token_set_ratio\<close>: the scores of fuzzball, from 0 to 100;
  \<^item> \<open>chrono_parseDate\<close>: chrono-node's \<open>parseDate\<close>, the time value of the date it
    resolves, \<open>None\<close> for \<open>null\<close>;
  \<^item> \<open>chrono_parse\<close>: chrono-node's \<open>parse\<close>, for each result the time value of its
    \<open>start\<close>, \<open>None\<close> when the result has no \<open>start\<close>;
  \<^item> \<open>isoDay\<close>: \<open>d.toISOString().split('T')[0]\<close> for a date \<open>d\<close>.
\<close>

record env =
  ucLower :: "jsstring \<Rightarrow> jsstring"
  ucUpper :: "jsstring \<Rightarrow> jsstring"
  fuzz_ratio :: "jsstring \<Rightarrow> jsstring \<Rightarrow> nat"
  token_set_ratio :: "jsstring \<Rightarrow> jsstring \<Rightarrow> nat"
  chrono_parseDate :: "jsstring \<Rightarrow> int option"
  chrono_parse :: "jsstring \<Rightarrow> int option list"
  isoDay :: "int \<Rightarrow> jsstring"

definition toLowerCase :: "env \<Rightarrow> jsstring \<Rightarrow> jsstring" where
  "toLowerCase E s = (if list_all plainCU s then map asciiLower s else ucLower E s)"

definition toUpperCase :: "env \<Rightarrow> jsstring \<Rightarrow> jsstring" where
  "toUpperCase E s = (if list_all plainCU s then map asciiUpper s else ucUpper E s)"

section \<open>Regular expressions\<close>

text \<open>
  The regular expressions of the parser are built from character classes with a greedy
  quantifier, literals, sequence, alternation, capture groups and the anchors \<open>^\<close> and
  \<open>$\<close>.  \<open>ms r st\<close> lists the states in which a match of \<open>r\<close> from state \<open>st\<close> can end, in
  the order in which the backtracking matcher of JavaScript tries them, so the head of
  the list is the match it returns.  A state is the position, the text from there on,
  and the captures so far.

  Under the flag \<open>i\<close> a pattern character matches a code unit with the same
  canonical form.  Every literal of these patterns is ASCII, and a code unit from 128
  on is never canonicalised to an ASCII one, so \<open>LitI\<close> compares ASCII upper-case forms,
  and \<open>[A-Za-z]\<close> is the same class with and without the flag.
\<close>

datatype rx =
    Rep "nat \<Rightarrow> bool" nat "nat option"
  | Lit jsstring
  | LitI jsstring
  | Seq rx rx
  | Alt rx rx
  | Grp nat rx
  | Eps
  | Bol
  | Eol

type_synonym caps = "nat \<Rightarrow> (nat \<times> nat) option"
type_synonym mstate = "nat \<times> jsstring \<times> caps"

definition run :: "(nat \<Rightarrow> bool) \<Rightarrow> nat option \<Rightarrow> jsstring \<Rightarrow> nat" where
  "run c hi r = (let k = length (takeWhile c r) in case hi of None \<Rightarrow> k | Some h \<Rightarrow> min h k)"

fun ms :: "rx \<Rightarrow> mstate \<Rightarrow> mstate list" where
  "ms (Rep c lo hi) (p, r, g) = map (\<lambda>k. (p + k, drop k r, g)) (rev [lo ..< Suc (run c hi r)])"
| "ms (Lit l) (p, r, g) =
     (if take (length l) r = l then [(p + length l, drop (length l) r, g)] else [])"
| "ms (LitI l) (p, r, g) =
     (if map asciiUpper (take (length l) r) = map asciiUpper l
      then [(p + length l, drop (length l) r, g)] else [])"
| "ms (Seq a b) st = concat (map (ms b) (ms a st))"
| "ms (Alt a b) st = ms a st @ ms b st"
| "ms (Grp n a) (p, r, g) = map (\<lambda>(q, r', g'). (q, r', g'(n \<mapsto> (p, q)))) (ms a (p, r, g))"
| "ms Eps st = [st]"
| "ms Bol (p, r, g) = (if p = 0 then [(p, r, g)] else [])"
| "ms Eol (p, r, g) = (if r = [] then [(p, r, g)] else [])"

text \<open>A match: where it starts, where it ends, and its captures.\<close>

record rmatch =
  m_start :: nat
  m_end :: nat
  m_caps :: caps

text \<open>\<open>rx_from r p rest\<close> tries the positions from \<open>p\<close> on, leftmost first.\<close>

fun rx_from :: "rx \<Rightarrow> nat \<Rightarrow> jsstring \<Rightarrow> rmatch option" where
  "rx_from r p [] =
     (case ms r (p, [], Map.empty) of
        [] \<Rightarrow> None
      | (q, _, g) # _ \<Rightarrow> Some \<lparr>m_start = p, m_end = q, m_caps = g\<rparr>)"
| "rx_from r p (c # cs) =
     (case ms r (p, c # cs, Map.empty) of
        [] \<Rightarrow> rx_from r (Suc p) cs
      | (q, _, g) # _ \<Rightarrow> Some \<lparr>m_start = p, m_end = q, m_caps = g\<rparr>)"

text \<open>\<open>s.match(r)\<close> for a regular expression without the flag \<open>g\<close>.\<close>

definition rx_match :: "rx \<Rightarrow> jsstring \<Rightarrow> rmatch option" where
  "rx_match r s = rx_from r 0 s"

text \<open>\<open>r.test(s)\<close>, and \<open>s.match(r)\<close> used as a condition.\<close>

definition rx_test :: "rx \<Rightarrow> jsstring \<Rightarrow> bool" where
  "rx_test r s = (rx_match r s \<noteq> None)"

text \<open>\<open>m[0]\<close> and \<open>m[n]\<close>; a group that took no part in the match is \<open>undefined\<close>.\<close>

definition whole :: "jsstring \<Rightarrow> rmatch \<Rightarrow> jsstring" where
  "whole s m = slice s (m_start m) (m_end m)"

definition grp :: "jsstring \<Rightarrow> rmatch \<Rightarrow> nat \<Rightarrow> jsstring option" where
  "grp s m n = (case m_caps m n of None \<Rightarrow> None | Some (a, b) \<Rightarrow> Some (slice s a b))"

section \<open>Date ranges\<close>

record dateRange =
  startDate :: jsstring
  endDate :: jsstring

text \<open>\<open>[A-Za-z]{3,9}\s+\d{4}\<close> and \<open>\s*[-]\s*\<close> (the class of the three dashes).\<close>

definition monthYear :: rx where
  "monthYear = Seq (Rep isLetter 3 (Some 9)) (Seq (Rep isWs 1 None) (Rep isDigit 4 (Some 4)))"

definition dashSep :: rx where
  "dashSep = Seq (Rep isWs 0 None) (Seq (Rep isDash 1 (Some 1)) (Rep isWs 0 None))"

text \<open>
  The variable \<open>endDate\<close> of both extractors holds either the string \<open>'Present'\<close> or what
  chrono-node returned.
\<close>

datatype endValue = Sentinel | Resolved "int option"

definition isoOrEmpty :: "env \<Rightarrow> int option \<Rightarrow> jsstring" where
  "isoOrEmpty E d = (case d of None \<Rightarrow> [] | Some t \<Rightarrow> isoDay E t)"

definition endString :: "env \<Rightarrow> endValue \<Rightarrow> jsstring" where
  "endString E e = (case e of Sentinel \<Rightarrow> js ''Present'' | Resolved d \<Rightarrow> isoOrEmpty E d)"

text \<open>
  \<open>chrono.parseDate(m[n])\<close>.  Both groups take part in every match of the date patterns;
  for an \<open>undefined\<close> group the model lets chrono-node return \<open>null\<close>.
\<close>

definition parseGroup :: "env \<Rightarrow> jsstring option \<Rightarrow> int option" where
  "parseGroup E x = (case x of None \<Rightarrow> None | Some t \<Rightarrow> chrono_parseDate E t)"

subsection \<open>\<open>extractDateRange\<close> (resumeParser2.js)\<close>

definition patterns :: "rx list" where
  "patterns =
    [ Seq (Grp 1 monthYear) (Seq dashSep
        (Grp 2 (Alt (LitI (js ''Present'')) (Alt (LitI (js ''Current'')) (LitI (js ''Ongoing'')))))),
      Seq (Grp 1 monthYear) (Seq dashSep (Grp 2 monthYear)),
      Seq (Grp 1 (Rep isDigit 4 (Some 4))) (Seq dashSep (Grp 2 (Rep isDigit 4 (Some 4)))),
      Seq (Grp 1 monthYear) (Seq dashSep (Grp 2 monthYear)) ]"

text \<open>The loop over the patterns, which returns at the first one that matches.\<close>

fun firstMatch :: "rx list \<Rightarrow> jsstring \<Rightarrow> rmatch option" where
  "firstMatch [] text = None"
| "firstMatch (pattern # rest) text =
     (case rx_match pattern text of Some m \<Rightarrow> Some m | None \<Rightarrow> firstMatch rest text)"

definition isSentinel2 :: "env \<Rightarrow> jsstring option \<Rightarrow> bool" where
  "isSentinel2 E x = (case x of None \<Rightarrow> False | Some t \<Rightarrow>
     t \<noteq> [] \<and> (includesStr (toLowerCase E t) (js ''present'')
       \<or> includesStr (toLowerCase E t) (js ''current'')
       \<or> includesStr (toLowerCase E t) (js ''ongoing'')))"

definition extractDateRange :: "env \<Rightarrow> jsstring \<Rightarrow> dateRange" where
  "extractDateRange E text =
     (case firstMatch patterns text of
        Some m \<Rightarrow>
          (let startD = parseGroup E (grp text m 1);
               endD = (if isSentinel2 E (grp text m 2) then Sentinel
                       else Resolved (parseGroup E (grp text m 2)))
           in \<lparr>startDate = isoOrEmpty E startD, endDate = endString E endD\<rparr>)
      | None \<Rightarrow> \<lparr>startDate = [], endDate = []\<rparr>)"

subsection \<open>\<open>extractDatesFromText\<close> (first pipeline)\<close>

definition dateRangePattern :: rx where
  "dateRangePattern =
     Seq (Grp 1 monthYear) (Seq dashSep
       (Grp 2 (Alt monthYear (Alt (LitI (js ''Present'')) (LitI (js ''Current''))))))"

definition singleDatePattern :: rx where
  "singleDatePattern = Grp 1 monthYear"

definition isSentinel1 :: "env \<Rightarrow> jsstring option \<Rightarrow> bool" where
  "isSentinel1 E x = (case x of None \<Rightarrow> False | Some t \<Rightarrow>
     includesStr (toLowerCase E t) (js ''present'') \<or> includesStr (toLowerCase E t) (js ''current''))"

definition extractDatesFromText :: "env \<Rightarrow> jsstring \<Rightarrow> dateRange" where
  "extractDatesFromText E text =
     (case rx_match dateRangePattern text of
        Some m \<Rightarrow>
          (let startD = parseGroup E (grp text m 1);
               endD = (if isSentinel1 E (grp text m 2) then Sentinel
                       else Resolved (parseGroup E (grp text m 2)))
           in \<lparr>startDate = isoOrEmpty E startD, endDate = endString E endD\<rparr>)
      | None \<Rightarrow>
          (case rx_match singleDatePattern text of
             Some m \<Rightarrow> \<lparr>startDate = isoOrEmpty E (parseGroup E (grp text m 1)), endDate = []\<rparr>
           | None \<Rightarrow> \<lparr>startDate = [], endDate = []\<rparr>))"

subsection \<open>\<open>extractDates\<close> (the pipeline built on chrono-node alone)\<close>

text \<open>
  \<open>results[k].start?.date().toISOString().split("T")[0]\<close> is \<open>undefined\<close> when the result
  has no \<open>start\<close>; a field of the returned object is \<open>None\<close> for \<open>undefined\<close>.
\<close>

record dateRangeB =
  startDateB :: "jsstring option"
  endDateB :: "jsstring option"

definition isoOpt :: "env \<Rightarrow> int option \<Rightarrow> jsstring option" where
  "isoOpt E d = map_option (isoDay E) d"

definition extractDates :: "env \<Rightarrow> jsstring \<Rightarrow> dateRangeB" where
  "extractDates E text =
     (let results = chrono_parse E text in
      if 2 \<le> length results
      then \<lparr>startDateB = isoOpt E (results ! 0), endDateB = isoOpt E (results ! 1)\<rparr>
      else if length results = 1
      then \<lparr>startDateB = isoOpt E (results ! 0), endDateB = Some []\<rparr>
      else \<lparr>startDateB = Some [], endDateB = Some []\<rparr>)"

section \<open>Sections\<close>

text \<open>
  A section as \<open>sections.push\<close> leaves it, and as it is once the second loop has given it
  its \<open>endIndex\<close>.  (\<open>detectSections\<close> also stores the lower-cased line as \<open>originalLine\<close>;
  nothing reads that field.)
\<close>

record pushed =
  ptype :: string
  pstart :: nat
  pheader :: jsstring

record sectionSpan =
  stype :: string
  startIndex :: nat
  header :: jsstring
  endIndex :: nat

text \<open>\<open>Object.entries(sectionKeywords)\<close> of the first pipeline, in insertion order.\<close>

definition sectionKeywords1 :: "(string \<times> jsstring list) list" where
  "sectionKeywords1 =
    [(''summary'', map js [''summary'', ''profile'', ''about'', ''objective'', ''career objective'',
        ''job objective'', ''profile summary'', ''professional summary'']),
     (''education'', map js [''education'', ''academic'', ''qualification'',
        ''educational background'', ''academic background'']),
     (''experience'', map js [''experience'', ''work experience'', ''employment'',
        ''professional experience'', ''career history'', ''work history'']),
     (''articleship'', map js [''articleship'', ''article assistant'', ''training'', ''internship'']),
     (''skills'', map js [''skills'', ''technical skills'', ''core competencies'', ''competencies'',
        ''technologies'', ''expertise'']),
     (''projects'', map js [''projects'', ''key projects'', ''notable projects'',
        ''project experience'']),
     (''certifications'', map js [''certifications'', ''certificates'', ''awards'', ''accolades'',
        ''achievements'', ''honors'', ''achievement'', ''position of responsibility'']),
     (''languages'', map js [''languages'', ''language'', ''spoken languages'', ''language known'']),
     (''hobbies'', map js [''hobbies'', ''interests'', ''personal interests'', ''activities''])]"

text \<open>The table of resumeParser2.js: one more keyword for the certifications.\<close>

definition sectionKeywords2 :: "(string \<times> jsstring list) list" where
  "sectionKeywords2 =
    [(''summary'', map js [''summary'', ''profile'', ''about'', ''objective'', ''career objective'',
        ''job objective'', ''profile summary'', ''professional summary'']),
     (''education'', map js [''education'', ''academic'', ''qualification'',
        ''educational background'', ''academic background'']),
     (''experience'', map js [''experience'', ''work experience'', ''employment'',
        ''professional experience'', ''career history'', ''work history'']),
     (''articleship'', map js [''articleship'', ''article assistant'', ''training'', ''internship'']),
     (''skills'', map js [''skills'', ''technical skills'', ''core competencies'', ''competencies'',
        ''technologies'', ''expertise'']),
     (''projects'', map js [''projects'', ''key projects'', ''notable projects'',
        ''project experience'']),
     (''certifications'', map js [''certifications'', ''certificates'', ''awards'', ''accolades'',
        ''achievements'', ''honors'', ''achievement'', ''position of responsibility'',
        ''achievements & position of responsibilities'']),
     (''languages'', map js [''languages'', ''language'', ''spoken languages'', ''language known'']),
     (''hobbies'', map js [''hobbies'', ''interests'', ''personal interests'', ''activities''])]"

text \<open>
  The loop over the keywords of one section type: at the first keyword that qualifies
  it pushes the section and breaks.  The result is what it pushed.
\<close>

fun keywordLoop :: "(jsstring \<Rightarrow> bool) \<Rightarrow> pushed \<Rightarrow> jsstring list \<Rightarrow> pushed list" where
  "keywordLoop qualifies sec [] = []"
| "keywordLoop qualifies sec (keyword # keywords) =
     (if qualifies keyword then [sec] else keywordLoop qualifies sec keywords)"

text \<open>The loop over the section types, for the line \<open>i\<close>: the \<open>break\<close> above leaves only the
  inner loop, so this one goes on with the next type.\<close>

definition typeLoop ::
  "(jsstring \<Rightarrow> bool) \<Rightarrow> (string \<times> jsstring list) list \<Rightarrow> nat \<Rightarrow> jsstring \<Rightarrow> pushed list" where
  "typeLoop qualifies table i hdr =
     concat (map (\<lambda>(sectionType, keywords).
       keywordLoop qualifies \<lparr>ptype = sectionType, pstart = i, pheader = hdr\<rparr> keywords) table)"

text \<open>The second loop: \<open>endIndex\<close> is the next section's \<open>startIndex\<close>, or \<open>lines.length\<close>.\<close>

fun addEndIndices :: "nat \<Rightarrow> pushed list \<Rightarrow> sectionSpan list" where
  "addEndIndices n [] = []"
| "addEndIndices n [s] =
     [\<lparr>stype = ptype s, startIndex = pstart s, header = pheader s, endIndex = n\<rparr>]"
| "addEndIndices n (s # t # rest) =
     \<lparr>stype = ptype s, startIndex = pstart s, header = pheader s, endIndex = pstart t\<rparr>
       # addEndIndices n (t # rest)"

subsection \<open>\<open>detectSectionBoundaries\<close> and \<open>getSectionContent\<close> (first pipeline)\<close>

definition qualifies1 :: "env \<Rightarrow> jsstring \<Rightarrow> jsstring \<Rightarrow> bool" where
  "qualifies1 E line keyword =
     (line = keyword \<or> (includesStr line keyword \<and> length line \<le> length keyword + 10)
      \<or> fuzz_ratio E line keyword > 85)"

definition lineSections1 :: "env \<Rightarrow> jsstring list \<Rightarrow> nat \<Rightarrow> pushed list" where
  "lineSections1 E lines i =
     (let line = toLowerCase E (trim (lines ! i))
      in typeLoop (qualifies1 E line) sectionKeywords1 i (trim (lines ! i)))"

definition detectSectionBoundaries :: "env \<Rightarrow> jsstring list \<Rightarrow> sectionSpan list" where
  "detectSectionBoundaries E lines =
     addEndIndices (length lines) (concat (map (lineSections1 E lines) [0 ..< length lines]))"

definition getSectionContent :: "sectionSpan list \<Rightarrow> jsstring list \<Rightarrow> string \<Rightarrow> jsstring list" where
  "getSectionContent sections lines sectionType =
     (case find (\<lambda>s. stype s = sectionType) sections of
        None \<Rightarrow> []
      | Some sec \<Rightarrow>
          filter (\<lambda>line. length line > 0)
            (map (\<lambda>i. trim (lines ! i)) [startIndex sec + 1 ..< endIndex sec]))"

subsection \<open>\<open>detectSections\<close> and \<open>getSectionLines\<close> (resumeParser2.js)\<close>

definition qualifies2 :: "env \<Rightarrow> jsstring \<Rightarrow> jsstring \<Rightarrow> bool" where
  "qualifies2 E line keyword =
     (line = keyword \<or> (includesStr line keyword \<and> length line \<le> length keyword + 15)
      \<or> fuzz_ratio E line keyword > 90)"

text \<open>\<open>line.match(/^\d/)\<close>.\<close>

definition startsWithDigit :: "jsstring \<Rightarrow> bool" where
  "startsWithDigit line = rx_test (Seq Bol (Rep isDigit 1 (Some 1))) line"

definition lineSections2 :: "env \<Rightarrow> jsstring list \<Rightarrow> nat \<Rightarrow> pushed list" where
  "lineSections2 E lines i =
     (let line = toLowerCase E (trim (lines ! i))
      in if length line < 3 \<or> startsWith line [bullet] \<or> startsWithDigit line then []
         else typeLoop (qualifies2 E line) sectionKeywords2 i (trim (lines ! i)))"

text \<open>\<open>sections.sort((a, b) => a.startIndex - b.startIndex)\<close>: a stable sort.\<close>

definition detectSections :: "env \<Rightarrow> jsstring list \<Rightarrow> sectionSpan list" where
  "detectSections E lines =
     addEndIndices (length lines)
       (sort_key pstart (concat (map (lineSections2 E lines) [0 ..< length lines])))"

definition getSectionLines :: "sectionSpan list \<Rightarrow> jsstring list \<Rightarrow> string \<Rightarrow> jsstring list" where
  "getSectionLines sections lines sectionType =
     (case find (\<lambda>s. stype s = sectionType) sections of
        None \<Rightarrow> []
      | Some sec \<Rightarrow>
          filter (\<lambda>line. trim line \<noteq> []) (slice lines (startIndex sec + 1) (endIndex sec)))"

subsection \<open>\<open>extractSection\<close> (the pipeline built on chrono-node alone)\<close>

definition sectionMatch :: "env \<Rightarrow> jsstring \<Rightarrow> jsstring \<Rightarrow> bool" where
  "sectionMatch E line sec = (token_set_ratio E (toLowerCase E line) (toLowerCase E sec) > 80)"

text \<open>
  The loop of \<open>extractSection\<close>, from the line it stands at, with its flag \<open>found\<close> and the
  lines collected so far.  The header line sets the flag and is not collected; a later
  line ends the section when it matches a keyword of the same list or is empty.
\<close>

fun extractSectionLoop ::
  "env \<Rightarrow> jsstring list \<Rightarrow> bool \<Rightarrow> jsstring list \<Rightarrow> jsstring list \<Rightarrow> jsstring list" where
  "extractSectionLoop E keywords found sec [] = sec"
| "extractSectionLoop E keywords found sec (line # rest) =
     (if \<not> found
      then extractSectionLoop E keywords (list_ex (sectionMatch E line) keywords) sec rest
      else if list_ex (sectionMatch E line) keywords \<or> length line = 0 then sec
      else extractSectionLoop E keywords found (sec @ [line]) rest)"

definition extractSection :: "env \<Rightarrow> jsstring list \<Rightarrow> jsstring list \<Rightarrow> jsstring list" where
  "extractSection E lines keywords = extractSectionLoop E keywords False [] lines"

section \<open>The name\<close>

text \<open>A failure of the JavaScript program: reading a property of \<open>undefined\<close>.\<close>

datatype jserror = TypeError

subsection \<open>\<open>extractName\<close> (first pipeline)\<close>

text \<open>\<open>/[@+\d]|resume|cv|curriculum/i\<close>.\<close>

definition nameStop1 :: rx where
  "nameStop1 = Alt (Rep (\<lambda>c. c = 64 \<or> c = 43 \<or> isDigit c) 1 (Some 1))
     (Alt (LitI (js ''resume'')) (Alt (LitI (js ''cv'')) (LitI (js ''curriculum''))))"

definition properCase :: "env \<Rightarrow> jsstring \<Rightarrow> bool" where
  "properCase E word =
     (length word > 0 \<and> [word ! 0] = toUpperCase E [word ! 0]
      \<and> drop 1 word = toLowerCase E (drop 1 word))"

text \<open>The loop of \<open>extractName\<close> over the lines it looks at; \<open>Some\<close> is its early return.\<close>

fun extractNameLoop :: "env \<Rightarrow> jsstring list \<Rightarrow> jsstring option" where
  "extractNameLoop E [] = None"
| "extractNameLoop E (l # ls) =
     (let line = trim l in
      if rx_test nameStop1 line \<or> length line < 3 \<or> length line > 50
      then extractNameLoop E ls
      else let words = splitRuns isWs line in
        if length words \<ge> 2 \<and> length words \<le> 4 \<and> list_all (properCase E) words
        then Some line
        else extractNameLoop E ls)"

definition extractName :: "env \<Rightarrow> jsstring list \<Rightarrow> jsstring" where
  "extractName E lines =
     (case extractNameLoop E (take (min 5 (length lines)) lines) of
        Some line \<Rightarrow> line
      | None \<Rightarrow> (case lines of [] \<Rightarrow> [] | l # _ \<Rightarrow> trim l))"

subsection \<open>The name of resumeParser2.js (the same code in both parse functions)\<close>

text \<open>\<open>/[@+\d]|resume|cv/i\<close>.\<close>

definition nameStop2 :: rx where
  "nameStop2 = Alt (Rep (\<lambda>c. c = 64 \<or> c = 43 \<or> isDigit c) 1 (Some 1))
     (Alt (LitI (js ''resume'')) (LitI (js ''cv'')))"

text \<open>
  \<open>words.every(w => w[0] === w[0].toUpperCase())\<close>: it stops at the first word that fails,
  and throws on an empty word, whose \<open>w[0]\<close> is \<open>undefined\<close>.
\<close>

fun everyCapital :: "env \<Rightarrow> jsstring list \<Rightarrow> jserror + bool" where
  "everyCapital E [] = Inr True"
| "everyCapital E ([] # ws) = Inl TypeError"
| "everyCapital E ((c # cs) # ws) =
     (if [c] = toUpperCase E [c] then everyCapital E ws else Inr False)"

definition nameTest2 :: "env \<Rightarrow> jsstring \<Rightarrow> jserror + bool" where
  "nameTest2 E line =
     (let words = splitRuns isWs line in
      if length words \<ge> 2 \<and> length words \<le> 4 \<and> \<not> rx_test nameStop2 line
      then everyCapital E words else Inr False)"

text \<open>\<open>lines.find(...)\<close>: over all the lines; \<open>Inr None\<close> is \<open>undefined\<close>.\<close>

fun findName2 :: "env \<Rightarrow> jsstring list \<Rightarrow> jserror + jsstring option" where
  "findName2 E [] = Inr None"
| "findName2 E (l # ls) =
     (case nameTest2 E l of
        Inl e \<Rightarrow> Inl e
      | Inr True \<Rightarrow> Inr (Some l)
      | Inr False \<Rightarrow> findName2 E ls)"

text \<open>\<open>lines.find(...) || lines[0] || ""\<close>.\<close>

definition name2 :: "env \<Rightarrow> jsstring list \<Rightarrow> jserror + jsstring" where
  "name2 E lines =
     (case findName2 E lines of
        Inl e \<Rightarrow> Inl e
      | Inr (Some l) \<Rightarrow> Inr (if l \<noteq> [] then l else (case lines of [] \<Rightarrow> [] | l0 # _ \<Rightarrow> l0))
      | Inr None \<Rightarrow> Inr (case lines of [] \<Rightarrow> [] | l0 # _ \<Rightarrow> l0))"

subsection \<open>The conditions on a name, in the words of the specification\<close>

text \<open>
  A line has a stop character when it has a digit, \<open>@\<close> or \<open>+\<close>; it contains a word when
  the word occurs in it in some letter case.  A token is title-cased as \<open>extractName\<close> tests
  it (\<open>properCase\<close>), and capitalised when its first code unit is its own upper-case form.
\<close>

definition hasStopChar :: "jsstring \<Rightarrow> bool" where
  "hasStopChar line = list_ex (\<lambda>c. c = 64 \<or> c = 43 \<or> isDigit c) line"

definition containsCI :: "jsstring \<Rightarrow> jsstring \<Rightarrow> bool" where
  "containsCI line w = includesStr (map asciiLower line) (map asciiLower w)"

definition capitalised :: "env \<Rightarrow> jsstring \<Rightarrow> bool" where
  "capitalised E w = (w \<noteq> [] \<and> [hd w] = toUpperCase E [hd w])"

definition nameLike :: "(jsstring \<Rightarrow> bool) \<Rightarrow> jsstring \<Rightarrow> bool" where
  "nameLike tokenOk line =
     (\<not> hasStopChar line \<and> \<not> containsCI line (js ''resume'') \<and> \<not> containsCI line (js ''cv'')
      \<and> 2 \<le> length (splitRuns isWs line) \<and> length (splitRuns isWs line) \<le> 4
      \<and> list_all tokenOk (splitRuns isWs line))"

text \<open>\<open>lines[0]\<close>, or the empty string for a document without lines.\<close>

definition firstLine :: "jsstring list \<Rightarrow> jsstring" where
  "firstLine lines = (case lines of [] \<Rightarrow> [] | l # _ \<Rightarrow> l)"

section \<open>Skills\<close>

text \<open>\<open>.map(s => s.trim()).filter(s => s.length > 1 && s.length < 50)\<close>.\<close>

definition skillTokens :: "jsstring \<Rightarrow> jsstring list" where
  "skillTokens s =
     filter (\<lambda>s. length s > 1 \<and> length s < 50) (map trim (splitRuns isListSep s))"

text \<open>
  The loop of the primary \<open>parseResume\<close> of resumeParser2.js: the text after the first
  colon of the line, or the whole line when it has none.
\<close>

definition afterColon :: "jsstring \<Rightarrow> jsstring" where
  "afterColon line = (case dropWhile (\<lambda>c. c \<noteq> 58) line of [] \<Rightarrow> line | _ # rest \<Rightarrow> rest)"

definition skillsPrimary :: "jsstring list \<Rightarrow> jsstring list" where
  "skillsPrimary skillsLines = concat (map (\<lambda>line. skillTokens (afterColon line)) skillsLines)"

text \<open>
  The loop of \<open>parseResumeSecondaryApproach\<close>: the text of the section is split at every
  line feed and at every colon, and each piece that is not blank is split into skills.
\<close>

definition skillsSecondary :: "jsstring \<Rightarrow> jsstring list" where
  "skillsSecondary skillsText =
     concat (map (\<lambda>line. if trim line \<noteq> [] then skillTokens line else [])
       (splitAt (\<lambda>c. c = 10 \<or> c = 58) skillsText))"

subsection \<open>\<open>parseSkills\<close> (first pipeline)\<close>

text \<open>\<open>/^([^:]+):\s*(.+)$/\<close>.\<close>

definition categoryPattern :: rx where
  "categoryPattern =
     Seq Bol (Seq (Grp 1 (Rep (\<lambda>c. c \<noteq> 58) 1 None)) (Seq (Lit [58]) (Seq (Rep isWs 0 None)
       (Seq (Grp 2 (Rep isDot 1 None)) Eol))))"

definition parseSkillsLine :: "jsstring \<Rightarrow> jsstring list" where
  "parseSkillsLine line =
     (case rx_match categoryPattern line of
        Some m \<Rightarrow>
          filter (\<lambda>s. length s > 0)
            (map trim (splitRuns isCommaBar (case grp line m 2 of Some t \<Rightarrow> t | None \<Rightarrow> [])))
      | None \<Rightarrow>
          filter (\<lambda>s. length s > 0 \<and> length s < 50) (map trim (splitRuns isListSep line)))"

definition parseSkills :: "jsstring list \<Rightarrow> jsstring list" where
  "parseSkills lines = uniq (concat (map parseSkillsLine lines))"

section \<open>Work experience\<close>

text \<open>
  An entry of the work history.  \<open>parseWorkExperience\<close> (first pipeline) computes a location
  and leaves it out of the entry: \<open>location\<close> is \<open>None\<close> there.
\<close>

record experience =
  company :: jsstring
  position :: jsstring
  location :: "jsstring option"
  expStart :: jsstring
  expEnd :: jsstring
  overview :: "jsstring list"

subsection \<open>\<open>parseWorkExperience\<close> (first pipeline)\<close>

text \<open>\<open>/^[A-Z][a-z\s]+$/\<close>.\<close>

definition titleLine :: rx where
  "titleLine = Seq Bol (Seq (Rep isUpperAZ 1 (Some 1))
     (Seq (Rep (\<lambda>c. isLowerAZ c \<or> isWs c) 1 None) Eol))"

text \<open>The state of the loop: \<open>experiences\<close>, \<open>currentExp\<close> and \<open>collectingBullets\<close>.\<close>

record workState =
  experiences :: "experience list"
  currentExp :: "experience option"
  collectingBullets :: bool

definition pushCurrent :: "workState \<Rightarrow> experience list" where
  "pushCurrent st = (case currentExp st of None \<Rightarrow> experiences st | Some e \<Rightarrow> experiences st @ [e])"

text \<open>A line with a date range opens a new entry.\<close>

definition openEntry :: "env \<Rightarrow> jsstring list \<Rightarrow> nat \<Rightarrow> jsstring \<Rightarrow> experience" where
  "openEntry E lines i line =
     (let company = (if i > 0 then trim (lines ! (i - 1)) else []);
          position =
            (if i + 1 < length lines
             then (let nextLine = trim (lines ! (i + 1)) in
                   if \<not> startsWith nextLine [bullet] \<and> length nextLine > 0 then nextLine else [])
             else []);
          dates = extractDatesFromText E line
      in \<lparr>company = company, position = position, location = None,
          expStart = startDate dates, expEnd = endDate dates, overview = []\<rparr>)"

text \<open>Any other line, while bullets are collected for a current entry.\<close>

definition collectLine :: "jsstring \<Rightarrow> experience \<Rightarrow> workState \<Rightarrow> workState" where
  "collectLine line cur st =
     (if startsWith line [bullet]
      then st\<lparr>currentExp := Some (cur\<lparr>overview := overview cur @ [trim (drop 1 line)]\<rparr>)\<rparr>
      else if length line > 0 \<and> \<not> rx_test titleLine line
      then (if length (overview cur) > 0
            then st\<lparr>currentExp := Some (cur\<lparr>overview := overview cur @ [line]\<rparr>)\<rparr>
            else st)
      else if rx_test titleLine line \<and> length line < 30
      then st\<lparr>collectingBullets := False\<rparr>
      else st)"

definition workStep :: "env \<Rightarrow> jsstring list \<Rightarrow> workState \<Rightarrow> nat \<Rightarrow> workState" where
  "workStep E lines st i =
     (let line = trim (lines ! i) in
      if rx_test dateRangePattern line
      then \<lparr>experiences = pushCurrent st, currentExp = Some (openEntry E lines i line),
            collectingBullets = True\<rparr>
      else (case currentExp st of
              Some cur \<Rightarrow> if collectingBullets st then collectLine line cur st else st
            | None \<Rightarrow> st))"

definition parseWorkExperience :: "env \<Rightarrow> jsstring list \<Rightarrow> experience list" where
  "parseWorkExperience E lines =
     pushCurrent (foldl (workStep E lines)
       \<lparr>experiences = [], currentExp = None, collectingBullets = False\<rparr> [0 ..< length lines])"

section \<open>The other fields of the record\<close>

record education =
  institution :: jsstring
  degree :: jsstring
  fieldOfStudy :: jsstring
  eduStart :: jsstring
  eduEnd :: jsstring
  cgpa :: "jsstring option"

record project =
  title :: jsstring
  pdescription :: "jsstring list"
  technologies :: jsstring
  link :: jsstring

record certification =
  cname :: jsstring
  issuer :: jsstring
  cdate :: jsstring

record contactInfo =
  email :: jsstring
  phone :: jsstring
  linkedin :: jsstring
  github :: jsstring

text \<open>An alternation of several branches, and an optional part \<open>(?:r)?\<close>.\<close>

fun alts :: "rx \<Rightarrow> rx list \<Rightarrow> rx" where
  "alts r [] = r"
| "alts r (x # xs) = Alt r (alts x xs)"

definition opt :: "rx \<Rightarrow> rx" where
  "opt r = Alt r Eps"

text \<open>\<open>s.match(r)?.[0] || ""\<close>, and \<open>s.replace(r, '')\<close> for \<open>r\<close> without the flag \<open>g\<close>.\<close>

definition firstMatchText :: "rx \<Rightarrow> jsstring \<Rightarrow> jsstring" where
  "firstMatchText r s = (case rx_match r s of None \<Rightarrow> [] | Some m \<Rightarrow> whole s m)"

definition removeFirst :: "rx \<Rightarrow> jsstring \<Rightarrow> jsstring" where
  "removeFirst r s =
     (case rx_match r s of None \<Rightarrow> s | Some m \<Rightarrow> take (m_start m) s @ drop (m_end m) s)"

subsection \<open>\<open>extractContactInfo\<close> (the same in both files)\<close>

definition emailRegex :: rx where
  "emailRegex =
     Seq (Rep (\<lambda>c. isLetter c \<or> isDigit c \<or> c = 46 \<or> c = 95 \<or> c = 37 \<or> c = 43 \<or> c = 45) 1 None)
       (Seq (Lit [64]) (Seq (Rep (\<lambda>c. isLetter c \<or> isDigit c \<or> c = 46 \<or> c = 45) 1 None)
         (Seq (Lit [46]) (Rep isLetter 2 None))))"

definition phoneRegex :: rx where
  "phoneRegex =
     Alt (Seq (Lit (js ''+91'')) (Seq (Rep (\<lambda>c. c = 45 \<or> isWs c) 0 (Some 1))
            (Seq (Rep (\<lambda>c. 54 \<le> c \<and> c \<le> 57) 1 (Some 1)) (Rep isDigit 9 (Some 9)))))
         (Seq (Lit (js ''+'')) (Seq (Rep isDigit 1 (Some 3)) (Seq (Rep (\<lambda>c. c = 45 \<or> isWs c) 0 (Some 1))
            (Rep isDigit 8 (Some 15)))))"

definition urlPrefix :: rx where
  "urlPrefix =
     Seq (opt (Seq (LitI (js ''http'')) (Seq (Rep (\<lambda>c. c = 115 \<or> c = 83) 0 (Some 1)) (Lit (js ''://'')))))
       (opt (LitI (js ''www.'')))"

definition linkedinRegex :: rx where
  "linkedinRegex =
     Seq urlPrefix (Seq (LitI (js ''linkedin.com/'')) (Rep (\<lambda>c. \<not> isWs c \<and> c \<noteq> 124 \<and> c \<noteq> 93) 1 None))"

definition githubRegex :: rx where
  "githubRegex =
     Seq urlPrefix (Seq (LitI (js ''github.com/'')) (Rep (\<lambda>c. \<not> isWs c \<and> c \<noteq> 124 \<and> c \<noteq> 93) 1 None))"

definition extractContactInfo :: "jsstring \<Rightarrow> contactInfo" where
  "extractContactInfo text =
     \<lparr>email = firstMatchText emailRegex text, phone = firstMatchText phoneRegex text,
      linkedin = firstMatchText linkedinRegex text, github = firstMatchText githubRegex text\<rparr>"

subsection \<open>\<open>parseEducation\<close> (first pipeline)\<close>

text \<open>\<open>B\.?Tech\<close> and its like, under the flag \<open>i\<close>.\<close>

definition dotted :: "string \<Rightarrow> string \<Rightarrow> rx" where
  "dotted a b = Seq (LitI (js a)) (Seq (Rep (\<lambda>c. c = 46) 0 (Some 1)) (LitI (js b)))"

definition degreeWords :: rx where
  "degreeWords =
     alts (dotted ''B'' ''Tech'')
       [LitI (js ''Bachelor''), LitI (js ''Master''), dotted ''M'' ''Tech'', dotted ''B'' ''Sc'',
        dotted ''M'' ''Sc'', dotted ''B'' ''A'', dotted ''M'' ''A'', LitI (js ''BBA''),
        LitI (js ''MBA''), LitI (js ''ACA'')]"

definition fieldPattern :: rx where
  "fieldPattern =
     alts (LitI (js ''Computer Science''))
       [LitI (js ''Engineering''), LitI (js ''Commerce''), LitI (js ''Arts''), LitI (js ''Science''),
        LitI (js ''Management''), LitI (js ''Accounting'')]"

text \<open>\<open>/CGPA\s*:?\s*([\d.]+)/i\<close>.\<close>

definition cgpaPattern :: rx where
  "cgpaPattern =
     Seq (LitI (js ''CGPA'')) (Seq (Rep isWs 0 None) (Seq (Rep (\<lambda>c. c = 58) 0 (Some 1))
       (Seq (Rep isWs 0 None) (Grp 1 (Rep (\<lambda>c. isDigit c \<or> c = 46) 1 None)))))"

text \<open>\<open>line.match(/\d{4}/g)\<close>: the matches one after the other; the empty list is \<open>null\<close>.\<close>

fun years4 :: "jsstring \<Rightarrow> jsstring list" where
  "years4 (a # b # c # d # rest) =
     (if isDigit a \<and> isDigit b \<and> isDigit c \<and> isDigit d
      then [a, b, c, d] # years4 rest else years4 (b # c # d # rest))"
| "years4 _ = []"

definition degreeText :: "rx \<Rightarrow> jsstring \<Rightarrow> jsstring" where
  "degreeText r line =
     (case rx_match r line of None \<Rightarrow> [] | Some m \<Rightarrow> filter (\<lambda>c. c \<noteq> 46) (whole line m))"

definition parseEducationLine :: "jsstring \<Rightarrow> education list" where
  "parseEducationLine line =
     (case rx_match degreeWords line of
        None \<Rightarrow> []
      | Some m \<Rightarrow>
          (let years = years4 line;
               inst0 = trim (take (m_start m) line);
               inst = (if inst0 = []
                       then trim (removeFirst (Seq (Rep isDigit 4 (Some 4)) (Rep isDot 0 None))
                              (removeFirst degreeWords line))
                       else inst0)
           in [\<lparr>institution = (if inst \<noteq> [] then inst else trim line),
                degree = degreeText degreeWords line,
                fieldOfStudy = firstMatchText fieldPattern line,
                eduStart = (if length years \<ge> 2 then years ! 0 @ js ''-01-01'' else []),
                eduEnd = (if length years \<ge> 2 then years ! 1 @ js ''-12-31'' else []),
                cgpa = (case rx_match cgpaPattern line of None \<Rightarrow> None | Some c \<Rightarrow> grp line c 1)\<rparr>]))"

definition parseEducation :: "jsstring list \<Rightarrow> education list" where
  "parseEducation lines = concat (map parseEducationLine lines)"

subsection \<open>\<open>parseProjects\<close> and \<open>parseCertifications\<close> (first pipeline)\<close>

definition githubMarker :: rx where
  "githubMarker = Seq (LitI (js ''GitHub'')) (Rep (\<lambda>c. \<not> isWs c) 0 None)"

definition liveMarker :: rx where
  "liveMarker = Seq (LitI (js ''Live'')) (Rep (\<lambda>c. \<not> isWs c) 0 None)"

text \<open>\<open>githubMatch?.[0] || liveMatch?.[0] || ""\<close>, both matched against \<open>s\<close>.\<close>

definition linkOf :: "jsstring \<Rightarrow> jsstring" where
  "linkOf s =
     (if firstMatchText githubMarker s \<noteq> [] then firstMatchText githubMarker s
      else firstMatchText liveMarker s)"

text \<open>\<open>parts[0].trim()\<close> and \<open>parts[1] ? parts[1].trim() : ""\<close> of \<open>line.split('|')\<close>.\<close>

definition titlePart :: "jsstring \<Rightarrow> jsstring" where
  "titlePart line = (case splitAt (\<lambda>c. c = 124) line of [] \<Rightarrow> [] | p # _ \<Rightarrow> trim p)"

definition technologiesPart :: "jsstring \<Rightarrow> jsstring" where
  "technologiesPart line = (case splitAt (\<lambda>c. c = 124) line of _ # p # _ \<Rightarrow> trim p | _ \<Rightarrow> [])"

definition projectStep :: "project list \<times> project option \<Rightarrow> jsstring \<Rightarrow> project list \<times> project option" where
  "projectStep st l =
     (let line = trim l; projects = fst st; currentProject = snd st in
      if includesStr line [124] \<or> includesStr line (js ''GitHub'') \<or> includesStr line (js ''Live'')
           \<or> (rx_test (Seq Bol (Rep isUpperAZ 1 (Some 1))) line \<and> \<not> startsWith line [bullet])
      then ((case currentProject of None \<Rightarrow> projects | Some p \<Rightarrow> projects @ [p]),
            Some \<lparr>title = titlePart line, pdescription = [], technologies = technologiesPart line,
                  link = linkOf line\<rparr>)
      else (case currentProject of
              Some p \<Rightarrow>
                if startsWith line [bullet]
                then (projects, Some (p\<lparr>pdescription := pdescription p @ [trim (drop 1 line)]\<rparr>))
                else st
            | None \<Rightarrow> st))"

definition parseProjects :: "jsstring list \<Rightarrow> project list" where
  "parseProjects lines =
     (let st = foldl projectStep ([], None) lines
      in case snd st of None \<Rightarrow> fst st | Some p \<Rightarrow> fst st @ [p])"

text \<open>\<open>line.replace(/^BULLET\s*/, '')\<close>, the bullet being \<open>U+2022\<close>.\<close>

definition stripBullet :: "jsstring \<Rightarrow> jsstring" where
  "stripBullet line = removeFirst (Seq Bol (Seq (Lit [bullet]) (Rep isWs 0 None))) line"

definition parseCertifications :: "jsstring list \<Rightarrow> certification list" where
  "parseCertifications lines =
     concat (map (\<lambda>line.
       if startsWith line [bullet] \<or> length (trim line) > 10
       then (let cleanLine = trim (stripBullet line) in
             if length cleanLine > 0 then [\<lparr>cname = cleanLine, issuer = [], cdate = []\<rparr>] else [])
       else []) lines)"

definition extractJobRoles :: "experience list \<Rightarrow> jsstring list" where
  "extractJobRoles workExperience =
     map trim (filter (\<lambda>p. p \<noteq> [] \<and> length (trim p) > 0) (map position workExperience))"

section \<open>The record\<close>

text \<open>
  The record is an object whose keys keep their order; a value is a string or an array.
  A key that \<open>delete\<close> removed is absent from the list.
\<close>

datatype jsvalue =
    Str jsstring
  | Strs "jsstring list"
  | Educations "education list"
  | Experiences "experience list"
  | Projects "project list"
  | Certifications "certification list"

type_synonym resume = "(string \<times> jsvalue) list"

text \<open>\<open>s.split(/[,|]+/).map(l => l.trim()).filter(Boolean)\<close>.\<close>

definition listOf :: "jsstring \<Rightarrow> jsstring list" where
  "listOf s = filter (\<lambda>l. l \<noteq> []) (map trim (splitRuns isCommaBar s))"

subsection \<open>\<open>parseResume\<close> of the first pipeline\<close>

text \<open>
  The test of the clean-up loop: \<open>Array.isArray(v) && v.length === 0\<close>, or
  \<open>typeof v === 'string' && v.trim() === ''\<close>.
\<close>

definition emptyField :: "jsvalue \<Rightarrow> bool" where
  "emptyField v =
     (case v of
        Str s \<Rightarrow> trim s = []
      | Strs xs \<Rightarrow> length xs = 0
      | Educations xs \<Rightarrow> length xs = 0
      | Experiences xs \<Rightarrow> length xs = 0
      | Projects xs \<Rightarrow> length xs = 0
      | Certifications xs \<Rightarrow> length xs = 0)"

definition cleanUp :: "resume \<Rightarrow> resume" where
  "cleanUp resume = filter (\<lambda>kv. \<not> emptyField (snd kv)) resume"

definition parseResume :: "env \<Rightarrow> jsstring \<Rightarrow> resume" where
  "parseResume E text =
     (let lines = normalizeLines text;
          sections = detectSectionBoundaries E lines;
          contact = extractContactInfo text;
          summaryContent = getSectionContent sections lines ''summary'';
          educationContent = getSectionContent sections lines ''education'';
          experienceContent = getSectionContent sections lines ''experience'';
          skillsContent = getSectionContent sections lines ''skills'';
          projectsContent = getSectionContent sections lines ''projects'';
          certificationsContent = getSectionContent sections lines ''certifications'';
          languagesContent = getSectionContent sections lines ''languages'';
          hobbiesContent = getSectionContent sections lines ''hobbies'';
          workExperience = parseWorkExperience E experienceContent
      in cleanUp
          [(''name'', Str (extractName E lines)),
           (''email'', Str (email contact)),
           (''phone'', Str (phone contact)),
           (''address'', Str []),
           (''summary'', Str (join (js '' '') summaryContent)),
           (''linkedin'', Str (linkedin contact)),
           (''jobRole'', Strs (extractJobRoles workExperience)),
           (''education'', Educations (parseEducation educationContent)),
           (''workExperience'', Experiences workExperience),
           (''skills'', Strs (parseSkills skillsContent)),
           (''projects'', Projects (parseProjects projectsContent)),
           (''certifications'', Certifications (parseCertifications certificationsContent)),
           (''languages'', Strs (listOf (join (js '' '') languagesContent))),
           (''hobbies'', Strs (listOf (join (js '' '') hobbiesContent)))])"

section \<open>resumeParser2.js\<close>

subsection \<open>\<open>extractRawSections\<close>\<close>

definition commonSections :: "string list" where
  "commonSections =
     [''experience'', ''education'', ''skills'', ''projects'', ''achievements'', ''certifications'']"

text \<open>The loop over \<open>commonSections\<close> for one line: a single loop, left at the first hit.\<close>

fun boundaryLoop :: "jsstring \<Rightarrow> string list \<Rightarrow> string option" where
  "boundaryLoop line [] = None"
| "boundaryLoop line (s # ss) =
     (if includesStr line (js s) \<and> length line < length s + 20 then Some s
      else boundaryLoop line ss)"

record boundary =
  bname :: string
  bindex :: nat
  originalName :: jsstring

definition sectionBoundaries :: "env \<Rightarrow> jsstring list \<Rightarrow> boundary list" where
  "sectionBoundaries E lines =
     concat (map (\<lambda>i. case boundaryLoop (toLowerCase E (lines ! i)) commonSections of
                        None \<Rightarrow> []
                      | Some s \<Rightarrow> [\<lparr>bname = s, bindex = i, originalName = lines ! i\<rparr>])
       [0 ..< length lines])"

record rawSection =
  rheader :: jsstring
  rcontent :: "jsstring list"
  rawText :: jsstring

text \<open>
  \<open>sectionBoundaries.forEach\<close>: the assignments \<open>rawSections[section.name] = ...\<close>, in
  order.  A later assignment to a name replaces an earlier one, so a name is looked up
  from the end.
\<close>

fun rawEntries :: "jsstring list \<Rightarrow> boundary list \<Rightarrow> (string \<times> rawSection) list" where
  "rawEntries lines [] = []"
| "rawEntries lines (b # bs) =
     (let startIdx = bindex b + 1;
          endIdx = (case bs of [] \<Rightarrow> length lines | b' # _ \<Rightarrow> bindex b');
          content = slice lines startIdx endIdx
      in (bname b, \<lparr>rheader = originalName b, rcontent = content, rawText = join [10] content\<rparr>)
           # rawEntries lines bs)"

definition extractRawSections :: "env \<Rightarrow> jsstring \<Rightarrow> string \<Rightarrow> rawSection option" where
  "extractRawSections E text =
     map_of (rev (rawEntries (normalizeLines text) (sectionBoundaries E (normalizeLines text))))"

subsection \<open>\<open>parseRawExperience\<close>\<close>

text \<open>
  What follows the date line of an entry: the position when the next line is no bullet,
  then the location when the line after that is no bullet and is short, then the
  bullets; the last component is where the scan goes on.
\<close>

definition isBulletLine :: "jsstring \<Rightarrow> bool" where
  "isBulletLine l = startsWith l [bullet]"

definition rawEntryTail ::
  "jsstring list \<Rightarrow> jsstring \<times> jsstring \<times> jsstring list \<times> jsstring list" where
  "rawEntryTail r1 =
     (let hasPos = (r1 \<noteq> [] \<and> \<not> isBulletLine (hd r1));
          r2 = (if hasPos then tl r1 else r1);
          hasLoc = (hasPos \<and> r2 \<noteq> [] \<and> \<not> isBulletLine (hd r2) \<and> length (trim (hd r2)) < 30);
          r3 = (if hasLoc then tl r2 else r2)
      in (if hasPos then trim (hd r1) else [],
          if hasLoc then trim (hd r2) else [],
          map (\<lambda>b. trim (drop 1 b)) (takeWhile isBulletLine r3),
          dropWhile isBulletLine r3))"

lemma rawEntryTail_length:
  "rawEntryTail r1 = (p, loc, bs, r4) \<Longrightarrow> length r4 \<le> length r1"
proof -
  assume a: "rawEntryTail r1 = (p, loc, bs, r4)"
  have 1: "length (dropWhile isBulletLine xs) \<le> length xs" for xs :: "jsstring list"
    by (rule length_dropWhile_le)
  have 2: "length (tl xs) \<le> length xs" for xs :: "jsstring list" by simp
  from a show ?thesis
    unfolding rawEntryTail_def Let_def
    by (auto split: if_splits intro: order_trans[OF 1] order_trans[OF 1 2]
        order_trans[OF 1 order_trans[OF 2 2]])
qed

text \<open>\<open>line && !line.startsWith(BULLET) && !line.match(/\d{4}/) && line.length > 2\<close>.\<close>

definition companyLine :: "jsstring \<Rightarrow> bool" where
  "companyLine line =
     (line \<noteq> [] \<and> \<not> startsWith line [bullet] \<and> \<not> rx_test (Rep isDigit 4 (Some 4)) line
      \<and> length line > 2)"

function (sequential) parseRawExperience :: "env \<Rightarrow> jsstring list \<Rightarrow> experience list" where
  "parseRawExperience E (l # d # r1) =
     (if companyLine (trim l) \<and> rx_test dateRangePattern (trim d)
      then (case rawEntryTail r1 of
              (pos, loc, bullets, r4) \<Rightarrow>
                \<lparr>company = trim l, position = pos, location = Some loc,
                 expStart = startDate (extractDateRange E (trim d)),
                 expEnd = endDate (extractDateRange E (trim d)), overview = bullets\<rparr>
                  # parseRawExperience E r4)
      else parseRawExperience E (d # r1))"
| "parseRawExperience E ls = []"
  by pat_completeness auto
termination
  by (relation "measure (\<lambda>(E, ls). length ls)") (auto dest!: rawEntryTail_length[OF sym])

subsection \<open>\<open>parseRawEducation\<close>\<close>

text \<open>The degree words with \<open>University\<close> and \<open>College\<close>, and \<open>/(\d{4})\s*[-]\s*(\d{4})/\<close>.\<close>

definition degreeOrSchool :: rx where
  "degreeOrSchool = Alt degreeWords (Alt (LitI (js ''University'')) (LitI (js ''College'')))"

definition yearPattern :: rx where
  "yearPattern = Seq (Grp 1 (Rep isDigit 4 (Some 4))) (Seq dashSep (Grp 2 (Rep isDigit 4 (Some 4))))"

definition groupText :: "jsstring \<Rightarrow> rmatch \<Rightarrow> nat \<Rightarrow> jsstring" where
  "groupText s m n = (case grp s m n of None \<Rightarrow> [] | Some t \<Rightarrow> t)"

definition parseRawEducationLine :: "jsstring \<Rightarrow> education list" where
  "parseRawEducationLine line =
     (if length (trim line) = 0 \<or> \<not> rx_test degreeOrSchool line then []
      else
        (let yearMatch = rx_match yearPattern line;
             inst1 = (case rx_match degreeWords line of
                        Some m \<Rightarrow> trim (take (m_start m) line)
                      | None \<Rightarrow> line);
             inst2 = (case yearMatch of
                        Some y \<Rightarrow> trim (removeFirst (Lit (whole line y)) inst1)
                      | None \<Rightarrow> inst1)
         in [\<lparr>institution = (if inst2 \<noteq> [] then inst2 else trim line),
              degree = degreeText degreeWords line,
              fieldOfStudy = firstMatchText fieldPattern line,
              eduStart = (case yearMatch of Some y \<Rightarrow> groupText line y 1 @ js ''-01-01'' | None \<Rightarrow> []),
              eduEnd = (case yearMatch of Some y \<Rightarrow> groupText line y 2 @ js ''-12-31'' | None \<Rightarrow> []),
              cgpa = (case rx_match cgpaPattern line of None \<Rightarrow> None | Some c \<Rightarrow> grp line c 1)\<rparr>]))"

definition parseRawEducation :: "jsstring list \<Rightarrow> education list" where
  "parseRawEducation lines = concat (map parseRawEducationLine lines)"

subsection \<open>\<open>parseRawProjects\<close>\<close>

text \<open>
  \<open>technologies.replace(/GitHub[^\s]*|Live[^\s]*/gi, '')\<close>: where one of the two words
  starts, it is removed with everything up to the next white space.
\<close>

definition startsCI :: "jsstring \<Rightarrow> jsstring \<Rightarrow> bool" where
  "startsCI s w = (map asciiUpper (take (length w) s) = map asciiUpper w)"

function stripMarkers :: "jsstring \<Rightarrow> jsstring" where
  "stripMarkers [] = []"
| "stripMarkers (c # cs) =
     (if startsCI (c # cs) (js ''GitHub'') \<or> startsCI (c # cs) (js ''Live'')
      then stripMarkers (dropWhile (\<lambda>x. \<not> isWs x) cs)
      else c # stripMarkers cs)"
  by pat_completeness auto
termination
  by (relation "measure length") (auto simp: le_imp_less_Suc length_dropWhile_le)

function parseRawProjects :: "jsstring list \<Rightarrow> project list" where
  "parseRawProjects [] = []"
| "parseRawProjects (l # rest) =
     (if includesStr (trim l) [124] \<and> \<not> startsWith (trim l) [bullet]
      then \<lparr>title = titlePart (trim l),
            pdescription = map (\<lambda>b. trim (drop 1 b)) (takeWhile isBulletLine rest),
            technologies = trim (stripMarkers (technologiesPart (trim l))),
            link = linkOf (technologiesPart (trim l))\<rparr>
             # parseRawProjects (dropWhile isBulletLine rest)
      else parseRawProjects rest)"
  by pat_completeness auto
termination
  by (relation "measure length") (auto simp: le_imp_less_Suc length_dropWhile_le)

subsection \<open>The two parse functions\<close>

text \<open>The certifications of both parse functions, and their job roles.\<close>

definition certificationsOf :: "jsstring list \<Rightarrow> certification list" where
  "certificationsOf lines =
     concat (map (\<lambda>line.
       if startsWith line [bullet] \<or> length (trim line) > 10
       then [\<lparr>cname = trim (stripBullet line), issuer = [], cdate = []\<rparr>] else []) lines)"

definition jobRolesOf :: "experience list \<Rightarrow> jsstring list" where
  "jobRolesOf workExperience =
     filter (\<lambda>p. p \<noteq> [] \<and> length (trim p) > 0) (map position workExperience)"

text \<open>The object both functions return: every key, whatever its value.\<close>

definition record2 ::
  "jsstring \<Rightarrow> contactInfo \<Rightarrow> education list \<Rightarrow> experience list \<Rightarrow> jsstring list \<Rightarrow> project list
     \<Rightarrow> certification list \<Rightarrow> resume" where
  "record2 name contact education workExperience skills projects certifications =
     [(''name'', Str name),
      (''email'', Str (email contact)),
      (''phone'', Str (phone contact)),
      (''address'', Str []),
      (''summary'', Str []),
      (''linkedin'', Str (linkedin contact)),
      (''jobRole'', Strs (jobRolesOf workExperience)),
      (''education'', Educations education),
      (''workExperience'', Experiences workExperience),
      (''skills'', Strs (uniq skills)),
      (''projects'', Projects projects),
      (''certifications'', Certifications certifications),
      (''languages'', Strs []),
      (''hobbies'', Strs [])]"

text \<open>
  \<open>parseResume\<close> of resumeParser2.js, the primary approach.  It fails where the search
  for the name fails.
\<close>

definition parseResume2 :: "env \<Rightarrow> jsstring \<Rightarrow> jserror + resume" where
  "parseResume2 E text =
     (let lines = normalizeLines text;
          sections = detectSections E lines;
          contact = extractContactInfo text
      in case name2 E lines of
           Inl e \<Rightarrow> Inl e
         | Inr name \<Rightarrow>
             (let workExperience = parseRawExperience E (getSectionLines sections lines ''experience'')
              in Inr (record2 name contact
                   (parseRawEducation (getSectionLines sections lines ''education''))
                   workExperience
                   (skillsPrimary (getSectionLines sections lines ''skills''))
                   (parseRawProjects (getSectionLines sections lines ''projects''))
                   (certificationsOf (getSectionLines sections lines ''certifications'')))))"

text \<open>\<open>rawSections.x ? f(rawSections.x.content) : []\<close>.\<close>

definition contentOf :: "rawSection option \<Rightarrow> jsstring list" where
  "contentOf s = (case s of None \<Rightarrow> [] | Some r \<Rightarrow> rcontent r)"

text \<open>\<open>rawSections.x?.rawText || ''\<close>.\<close>

definition textOf :: "rawSection option \<Rightarrow> jsstring" where
  "textOf s = (case s of None \<Rightarrow> [] | Some r \<Rightarrow> rawText r)"

definition parseResumeSecondaryApproach :: "env \<Rightarrow> jsstring \<Rightarrow> jserror + resume" where
  "parseResumeSecondaryApproach E text =
     (let lines = normalizeLines text;
          contact = extractContactInfo text;
          rawSections = extractRawSections E text
      in case name2 E lines of
           Inl e \<Rightarrow> Inl e
         | Inr name \<Rightarrow>
             (let workExperience = parseRawExperience E (contentOf (rawSections ''experience''));
                  skills = (case rawSections ''skills'' of
                              None \<Rightarrow> []
                            | Some r \<Rightarrow> skillsSecondary (rawText r));
                  achievementLines =
                    filter (\<lambda>line. trim line \<noteq> [])
                      (splitAt (\<lambda>c. c = 10)
                        (textOf (rawSections ''achievements'') @ textOf (rawSections ''certifications'')))
              in Inr (record2 name contact
                   (parseRawEducation (contentOf (rawSections ''education'')))
                   workExperience skills
                   (parseRawProjects (contentOf (rawSections ''projects'')))
                   (certificationsOf achievementLines))))"

text \<open>The value of a key of the record; \<open>None\<close> when the record has no such key.\<close>

definition field :: "resume \<Rightarrow> string \<Rightarrow> jsvalue option" where
  "field r k = map_of r k"

section \<open>A sample library\<close>

text \<open>
  The instances of the theorems below need one concrete library.  This one resolves
  \<open>Jan 2020\<close> to noon of 1 January 2020 (UTC) and nothing else, scores a pair of strings
  100 when they are equal and 0 otherwise, and leaves the Unicode case mappings alone.
\<close>

definition sampleEnv :: env where
  "sampleEnv =
     \<lparr>ucLower = (\<lambda>s. s), ucUpper = (\<lambda>s. s),
      fuzz_ratio = (\<lambda>a b. if a = b then 100 else 0),
      token_set_ratio = (\<lambda>a b. if a = b then 100 else 0),
      chrono_parseDate = (\<lambda>s. if s = js ''Jan 2020'' then Some 1577880000000 else None),
      chrono_parse = (\<lambda>s. if s = js ''Jan 2020'' then [Some 1577880000000] else []),
      isoDay = (\<lambda>t. if t = 1577880000000 then js ''2020-01-01'' else js ''1970-01-01'')\<rparr>"

section \<open>Evaluation on concrete inputs\<close>

lemmas class_defs = isLetter_def isUpperAZ_def isLowerAZ_def isDigit_def isWs_def isDash_def
  isDot_def asciiUpper_def asciiLower_def plainCU_def

lemmas rx_eval = ms.simps run_def rx_match_def rx_test_def js_def grp_def slice_def whole_def

lemmas date_defs = patterns_def dateRangePattern_def singleDatePattern_def monthYear_def dashSep_def
  extractDateRange_def extractDatesFromText_def extractDates_def isoOrEmpty_def endString_def
  parseGroup_def isSentinel1_def isSentinel2_def isoOpt_def


lemmas split_eval = splitRuns_def normalizeLines_def uniq_def isListSep_def isCommaBar_def trim_def
lemmas skill_defs = skillTokens_def afterColon_def skillsPrimary_def skillsSecondary_def
  categoryPattern_def parseSkillsLine_def parseSkills_def

lemmas sec_defs = detectSections_def lineSections2_def typeLoop_def sectionKeywords2_def qualifies2_def
  startsWithDigit_def bullet_def startsWith_def toLowerCase_def trim_def
  detectSectionBoundaries_def lineSections1_def sectionKeywords1_def qualifies1_def
  getSectionContent_def getSectionLines_def extractSection_def sectionMatch_def

section \<open>Properties of the matcher\<close>

lemma run_le_iff:
  "k \<le> run c hi r \<longleftrightarrow> k \<le> length (takeWhile c r) \<and> (case hi of None \<Rightarrow> True | Some h \<Rightarrow> k \<le> h)"
  by (auto simp: run_def Let_def split: option.splits)

lemma le_takeWhile_iff:
  "k \<le> length (takeWhile c r) \<longleftrightarrow> k \<le> length r \<and> list_all c (take k r)"
proof (induction r arbitrary: k)
  case Nil
  then show ?case by simp
next
  case (Cons x xs)
  show ?case by (cases k) (auto simp: Cons.IH)
qed

lemma set_ms_Rep0:
  "set (ms (Rep c lo hi) (p, r, g)) = (\<lambda>k. (p + k, drop k r, g)) ` {k. lo \<le> k \<and> k \<le> run c hi r}"
  by (auto simp del: upt_Suc simp: less_Suc_eq_le)

lemma set_ms_Rep:
  "set (ms (Rep c lo hi) (p, r, g)) =
     {(p + k, drop k r, g) | k. lo \<le> k \<and> k \<le> length r \<and> list_all c (take k r)
        \<and> (case hi of None \<Rightarrow> True | Some h \<Rightarrow> k \<le> h)}"
  unfolding set_ms_Rep0 run_le_iff le_takeWhile_iff by auto

lemma set_ms_Seq: "set (ms (Seq a b) st) = (\<Union>st' \<in> set (ms a st). set (ms b st'))"
  by simp

lemma set_ms_Grp:
  "set (ms (Grp n a) (p, r, g)) = (\<lambda>(q, r', g'). (q, r', g'(n \<mapsto> (p, q)))) ` set (ms a (p, r, g))"
  by simp

lemma ms_inv:
  "(q, r', g') \<in> set (ms r (p, rest, g)) \<Longrightarrow> p \<le> q \<and> q - p \<le> length rest \<and> r' = drop (q - p) rest"
proof (induction r arbitrary: p rest g q r' g')
  case (Rep c lo hi)
  then show ?case unfolding set_ms_Rep by auto
next
  case (Lit l)
  then show ?case by (auto split: if_splits simp: min_def) (metis length_take min.cobounded1 nat_le_linear take_all)
next
  case (LitI l)
  then show ?case by (auto split: if_splits) (metis length_map length_take min.cobounded1 nat_le_linear take_all)
next
  case (Seq a b)
  from Seq.prems obtain q1 r1 g1 where 1: "(q1, r1, g1) \<in> set (ms a (p, rest, g))"
    and 2: "(q, r', g') \<in> set (ms b (q1, r1, g1))" by auto
  from Seq.IH(1)[OF 1] Seq.IH(2)[OF 2] show ?case by auto
next
  case (Alt a b)
  then show ?case by auto
next
  case (Grp n a)
  then show ?case by auto
qed (auto split: if_splits)


lemma Rep_intro:
  assumes "list_all c xs" "lo \<le> length xs" "case hi of None \<Rightarrow> True | Some h \<Rightarrow> length xs \<le> h"
  shows "(p + length xs, r, g) \<in> set (ms (Rep c lo hi) (p, xs @ r, g))"
  unfolding set_ms_Rep using assms by (auto intro!: exI[of _ "length xs"])

lemma Seq_intro:
  "st1 \<in> set (ms a st) \<Longrightarrow> st2 \<in> set (ms b st1) \<Longrightarrow> st2 \<in> set (ms (Seq a b) st)"
  by auto

lemma Grp_intro:
  "(q, r', g') \<in> set (ms a (p, r, g)) \<Longrightarrow> (q, r', g'(n \<mapsto> (p, q))) \<in> set (ms (Grp n a) (p, r, g))"
  by force

lemma LitI_intro:
  assumes "map asciiUpper t = map asciiUpper l"
  shows "(p + length l, r, g) \<in> set (ms (LitI l) (p, t @ r, g))"
proof -
  have "length t = length l" using assms by (metis length_map)
  then show ?thesis using assms by simp
qed

lemma monthYear_intro:
  assumes "list_all isLetter mon" "3 \<le> length mon" "length mon \<le> 9"
    and "list_all isWs ws" "ws \<noteq> []" "list_all isDigit yr" "length yr = 4"
  shows "(p + length mon + length ws + 4, r, g) \<in> set (ms monthYear (p, mon @ ws @ yr @ r, g))"
proof -
  have 1: "(p + length mon, ws @ yr @ r, g) \<in> set (ms (Rep isLetter 3 (Some 9)) (p, mon @ ws @ yr @ r, g))"
    using assms by (intro Rep_intro) auto
  have 2: "(p + length mon + length ws, yr @ r, g)
      \<in> set (ms (Rep isWs 1 None) (p + length mon, ws @ yr @ r, g))"
    using assms by (intro Rep_intro) (auto simp: Suc_le_eq)
  have 3: "(p + length mon + length ws + length yr, r, g)
      \<in> set (ms (Rep isDigit 4 (Some 4)) (p + length mon + length ws, yr @ r, g))"
    using assms by (intro Rep_intro) auto
  have e: "p + length mon + length ws + length yr = p + length mon + length ws + 4"
    using assms(7) by simp
  show ?thesis unfolding monthYear_def
    using Seq_intro[OF 1 Seq_intro[OF 2 3]] unfolding e .
qed

lemma dashSep_intro:
  assumes "list_all isWs ws2" "isDash d" "list_all isWs ws3"
  shows "(p + length ws2 + 1 + length ws3, r, g) \<in> set (ms dashSep (p, ws2 @ [d] @ ws3 @ r, g))"
proof -
  have 1: "(p + length ws2, [d] @ ws3 @ r, g) \<in> set (ms (Rep isWs 0 None) (p, ws2 @ [d] @ ws3 @ r, g))"
    using assms by (intro Rep_intro) auto
  have 2: "(p + length ws2 + length [d], ws3 @ r, g)
      \<in> set (ms (Rep isDash 1 (Some 1)) (p + length ws2, [d] @ ws3 @ r, g))"
    using assms by (intro Rep_intro) auto
  have 3: "(p + length ws2 + length [d] + length ws3, r, g)
      \<in> set (ms (Rep isWs 0 None) (p + length ws2 + length [d], ws3 @ r, g))"
    using assms by (intro Rep_intro) auto
  have e: "p + length ws2 + length [d] + length ws3 = p + length ws2 + 1 + length ws3"
    by simp
  show ?thesis unfolding dashSep_def
    using Seq_intro[OF 1 Seq_intro[OF 2 3]] unfolding e .
qed

lemma rx_from_finds:
  "ms r (p + length pre, rest, Map.empty) \<noteq> [] \<Longrightarrow> rx_from r p (pre @ rest) \<noteq> None"
proof (induction pre arbitrary: p)
  case Nil
  then show ?case by (cases rest) (auto split: list.splits)
next
  case (Cons c pre)
  from Cons.prems have "rx_from r (Suc p) (pre @ rest) \<noteq> None"
    by (intro Cons.IH) simp
  then show ?case by (auto split: list.splits)
qed

lemma rx_from_sound:
  "rx_from r p s = Some m \<Longrightarrow>
     \<exists>k q rs g tl. k \<le> length s \<and> ms r (p + k, drop k s, Map.empty) = (q, rs, g) # tl
        \<and> m = \<lparr>m_start = p + k, m_end = q, m_caps = g\<rparr>"
proof (induction s arbitrary: p)
  case Nil
  then show ?case by (auto split: list.splits)
next
  case (Cons c cs)
  show ?case
  proof (cases "ms r (p, c # cs, Map.empty)")
    case Nil
    with Cons.prems have "rx_from r (Suc p) cs = Some m" by simp
    from Cons.IH[OF this] obtain k q rs g tl where
      "k \<le> length cs" "ms r (Suc p + k, drop k cs, Map.empty) = (q, rs, g) # tl"
      "m = \<lparr>m_start = Suc p + k, m_end = q, m_caps = g\<rparr>" by blast
    then show ?thesis by (intro exI[of _ "Suc k"] exI[of _ q] exI[of _ rs] exI[of _ g] exI[of _ tl]) simp
  next
    case (Cons st tl)
    obtain q rs g where st: "st = (q, rs, g)" by (cases st) auto
    with Cons Cons.prems show ?thesis
      by (intro exI[of _ 0] exI[of _ q] exI[of _ rs] exI[of _ g] exI[of _ tl]) auto
  qed
qed

lemma Seq_elim:
  "st2 \<in> set (ms (Seq a b) st) \<Longrightarrow> \<exists>st1 \<in> set (ms a st). st2 \<in> set (ms b st1)"
  by auto

lemma Alt_elim:
  "st' \<in> set (ms (Alt a b) st) \<Longrightarrow> st' \<in> set (ms a st) \<or> st' \<in> set (ms b st)"
  by auto

lemma Grp_elim:
  "(q, r', g') \<in> set (ms (Grp n a) (p, r, g)) \<Longrightarrow>
     \<exists>g0. (q, r', g0) \<in> set (ms a (p, r, g)) \<and> g' = g0(n \<mapsto> (p, q))"
  by auto

lemma LitI_elim:
  "(q, r', g') \<in> set (ms (LitI l) (p, r, g)) \<Longrightarrow>
     q = p + length l \<and> g' = g \<and> map asciiUpper (take (length l) r) = map asciiUpper l"
  by (auto split: if_splits)

lemma upper_eq_lower_eq: "asciiUpper c = asciiUpper d \<Longrightarrow> asciiLower c = asciiLower d"
  by (auto simp: asciiUpper_def asciiLower_def isUpperAZ_def isLowerAZ_def split: if_splits)

lemma lower_eq_upper_eq: "asciiLower c = asciiLower d \<Longrightarrow> asciiUpper c = asciiUpper d"
  by (auto simp: asciiUpper_def asciiLower_def isUpperAZ_def isLowerAZ_def split: if_splits)

lemma upper_eq_plain: "asciiUpper c = asciiUpper d \<Longrightarrow> d < 128 \<Longrightarrow> plainCU c"
  by (auto simp: asciiUpper_def plainCU_def isLowerAZ_def split: if_splits)

lemma map_upper_eq_lower_eq:
  "map asciiUpper t = map asciiUpper l \<Longrightarrow> map asciiLower t = map asciiLower l"
proof (induction t arbitrary: l)
  case Nil
  then show ?case by simp
next
  case (Cons c t)
  then obtain d l' where l: "l = d # l'" and 1: "asciiUpper c = asciiUpper d"
    and 2: "map asciiUpper t = map asciiUpper l'" by (cases l) auto
  show ?case using Cons.IH[OF 2] upper_eq_lower_eq[OF 1] l by simp
qed

lemma map_lower_eq_upper_eq:
  "map asciiLower t = map asciiLower l \<Longrightarrow> map asciiUpper t = map asciiUpper l"
proof (induction t arbitrary: l)
  case Nil
  then show ?case by simp
next
  case (Cons c t)
  then obtain d l' where l: "l = d # l'" and 1: "asciiLower c = asciiLower d"
    and 2: "map asciiLower t = map asciiLower l'" by (cases l) auto
  show ?case using Cons.IH[OF 2] lower_eq_upper_eq[OF 1] l by simp
qed

lemma map_upper_eq_plain:
  "map asciiUpper t = map asciiUpper l \<Longrightarrow> list_all (\<lambda>d. d < 128) l \<Longrightarrow> list_all plainCU t"
proof (induction t arbitrary: l)
  case Nil
  then show ?case by simp
next
  case (Cons c t)
  then obtain d l' where l: "l = d # l'" and 1: "asciiUpper c = asciiUpper d"
    and 2: "map asciiUpper t = map asciiUpper l'" and 3: "d < 128" "list_all (\<lambda>d. d < 128) l'"
    by (cases l) auto
  show ?case using Cons.IH[OF 2 3(2)] upper_eq_plain[OF 1 3(1)] by simp
qed

lemma includesStr_Nil: "includesStr s []"
  by (cases s) (auto simp: startsWith_def)

lemma includesStr_append: "includesStr (w @ rest) w"
  by (cases w) (auto simp: startsWith_def includesStr_Nil)

lemma toLowerCase_plain: "list_all plainCU s \<Longrightarrow> toLowerCase E s = map asciiLower s"
  by (simp add: toLowerCase_def)

declare ms.simps [simp del]

lemma sentinel_group:
  assumes "(q, r', g') \<in> set (ms (Grp 2 (Alt (LitI w1) (Alt (LitI w2) (LitI w3)))) (a, ra, g))"
  shows "\<exists>w \<in> {w1, w2, w3}. g' 2 = Some (a, a + length w)
           \<and> map asciiUpper (take (length w) ra) = map asciiUpper w"
proof -
  from Grp_elim[OF assms] obtain g0 where
    m: "(q, r', g0) \<in> set (ms (Alt (LitI w1) (Alt (LitI w2) (LitI w3))) (a, ra, g))"
    and g': "g' = g0(2 \<mapsto> (a, q))" by blast
  from Alt_elim[OF m] consider
    "(q, r', g0) \<in> set (ms (LitI w1) (a, ra, g))"
    | "(q, r', g0) \<in> set (ms (LitI w2) (a, ra, g))"
    | "(q, r', g0) \<in> set (ms (LitI w3) (a, ra, g))"
    using Alt_elim by blast
  then show ?thesis
  proof cases
    case 1
    from LitI_elim[OF 1] g' show ?thesis by auto
  next
    case 2
    from LitI_elim[OF 2] g' show ?thesis by auto
  next
    case 3
    from LitI_elim[OF 3] g' show ?thesis by auto
  qed
qed

lemma pattern1_sound:
  assumes "(q, r', g') \<in> set (ms (Seq (Grp 1 monthYear) (Seq dashSep
              (Grp 2 (Alt (LitI w1) (Alt (LitI w2) (LitI w3)))))) (p, rest, g))"
  shows "\<exists>a. \<exists>w \<in> {w1, w2, w3}. p \<le> a \<and> g' 2 = Some (a, a + length w)
           \<and> map asciiUpper (take (length w) (drop (a - p) rest)) = map asciiUpper w"
proof -
  from Seq_elim[OF assms] obtain a1 r1 g1 where
    1: "(a1, r1, g1) \<in> set (ms (Grp 1 monthYear) (p, rest, g))"
    and 2: "(q, r', g') \<in> set (ms (Seq dashSep (Grp 2 (Alt (LitI w1) (Alt (LitI w2) (LitI w3)))))
               (a1, r1, g1))"
    by (metis prod_cases3)
  from Seq_elim[OF 2] obtain a ra g2 where
    3: "(a, ra, g2) \<in> set (ms dashSep (a1, r1, g1))"
    and 4: "(q, r', g') \<in> set (ms (Grp 2 (Alt (LitI w1) (Alt (LitI w2) (LitI w3)))) (a, ra, g2))"
    by (metis prod_cases3)
  from ms_inv[OF 1] have i1: "p \<le> a1" "a1 - p \<le> length rest" "r1 = drop (a1 - p) rest" by auto
  from ms_inv[OF 3] have i2: "a1 \<le> a" "ra = drop (a - a1) r1" by auto
  have ra: "ra = drop (a - p) rest" using i1 i2 by simp
  from sentinel_group[OF 4] obtain w where w: "w \<in> {w1, w2, w3}" "g' 2 = Some (a, a + length w)"
    "map asciiUpper (take (length w) ra) = map asciiUpper w" by blast
  have "p \<le> a" using i1 i2 by simp
  with w ra show ?thesis by blast
qed

lemma match_group_slice:
  assumes "rx_match r text = Some m"
  obtains k q rs g tl where "k \<le> length text"
    "ms r (k, drop k text, Map.empty) = (q, rs, g) # tl" "m_start m = k" "m_caps m = g" "m_end m = q"
proof -
  from rx_from_sound[OF assms[unfolded rx_match_def]] obtain k q rs g tl where
    "k \<le> length text" "ms r (0 + k, drop k text, Map.empty) = (q, rs, g) # tl"
    "m = \<lparr>m_start = 0 + k, m_end = q, m_caps = g\<rparr>" by blast
  then show ?thesis using that[of k q rs g tl] by simp
qed

lemma sentinel_word_lower:
  assumes "map asciiUpper t = map asciiUpper w" and a: "list_all (\<lambda>d. d < 128) w"
  shows "toLowerCase E t = map asciiLower w" "length t = length w"
proof -
  show "toLowerCase E t = map asciiLower w"
    using map_upper_eq_plain[OF assms] map_upper_eq_lower_eq[OF assms(1)]
    by (simp add: toLowerCase_plain)
  show "length t = length w" using assms(1) by (metis length_map)
qed

lemma sentinel2_holds:
  assumes "w \<in> {js ''Present'', js ''Current'', js ''Ongoing''}"
    and "map asciiUpper t = map asciiUpper w"
  shows "isSentinel2 E (Some t)"
proof -
  have a: "list_all (\<lambda>d. d < 128) w" using assms(1) by (auto simp: js_def)
  have l: "toLowerCase E t = map asciiLower w" "length t = length w"
    using sentinel_word_lower[OF assms(2) a] by auto
  have ne: "t \<noteq> []" using l(2) assms(1) by (auto simp: js_def)
  have "includesStr (map asciiLower w) (js ''present'') \<or> includesStr (map asciiLower w) (js ''current'')
      \<or> includesStr (map asciiLower w) (js ''ongoing'')"
    using assms(1) by (auto simp: js_def asciiLower_def isUpperAZ_def startsWith_def)
  with ne l show ?thesis by (simp add: isSentinel2_def)
qed

lemma lower_sentinels:
  "map asciiLower (js ''Present'') = js ''present''"
  "map asciiLower (js ''Current'') = js ''current''"
  "map asciiLower (js ''Ongoing'') = js ''ongoing''"
  by (simp_all add: js_def asciiLower_def isUpperAZ_def)

lemma sentinel_cases:
  assumes "map asciiLower tok \<in> {js ''present'', js ''current'', js ''ongoing''}"
  shows "\<exists>w \<in> {js ''Present'', js ''Current'', js ''Ongoing''}. map asciiLower tok = map asciiLower w"
proof -
  from assms consider "map asciiLower tok = js ''present''" | "map asciiLower tok = js ''current''"
    | "map asciiLower tok = js ''ongoing''" by blast
  then show ?thesis
  proof cases
    case 1
    then have "map asciiLower tok = map asciiLower (js ''Present'')" by (simp only: lower_sentinels)
    then show ?thesis by blast
  next
    case 2
    then have "map asciiLower tok = map asciiLower (js ''Current'')" by (simp only: lower_sentinels)
    then show ?thesis by blast
  next
    case 3
    then have "map asciiLower tok = map asciiLower (js ''Ongoing'')" by (simp only: lower_sentinels)
    then show ?thesis by blast
  qed
qed

lemma extractDateRange_sentinel:
  assumes decomp: "text = pre @ mon @ ws1 @ yr @ ws2 @ [d] @ ws3 @ tok @ post"
    and mon: "list_all isLetter mon" "3 \<le> length mon" "length mon \<le> 9"
    and ws1: "list_all isWs ws1" "ws1 \<noteq> []"
    and yr: "list_all isDigit yr" "length yr = 4"
    and sep: "list_all isWs ws2" "isDash d" "list_all isWs ws3"
    and tok: "map asciiLower tok \<in> {js ''present'', js ''current'', js ''ongoing''}"
  shows "endDate (extractDateRange E text) = js ''Present''"
proof -
  define W where "W = Alt (LitI (js ''Present'')) (Alt (LitI (js ''Current'')) (LitI (js ''Ongoing'')))"
  define P1 where "P1 = Seq (Grp 1 monthYear) (Seq dashSep (Grp 2 W))"
  have pats: "patterns = P1 # tl patterns" by (simp add: patterns_def P1_def W_def)
  \<comment> \<open>the first pattern matches where the range stands\<close>
  define p where "p = length pre"
  define g0 :: caps where "g0 = Map.empty"
  have m1: "(p + length mon + length ws1 + 4, ws2 @ [d] @ ws3 @ tok @ post, g0)
      \<in> set (ms monthYear (p, mon @ ws1 @ yr @ ws2 @ [d] @ ws3 @ tok @ post, g0))"
    using mon ws1 yr by (intro monthYear_intro) auto
  define p1 where "p1 = p + length mon + length ws1 + 4"
  define g1 where "g1 = g0(1 \<mapsto> (p, p1))"
  have m1': "(p1, ws2 @ [d] @ ws3 @ tok @ post, g1)
      \<in> set (ms (Grp 1 monthYear) (p, mon @ ws1 @ yr @ ws2 @ [d] @ ws3 @ tok @ post, g0))"
    unfolding g1_def p1_def by (rule Grp_intro[OF m1])
  have m2: "(p1 + length ws2 + 1 + length ws3, tok @ post, g1)
      \<in> set (ms dashSep (p1, ws2 @ [d] @ ws3 @ tok @ post, g1))"
    using sep by (intro dashSep_intro) auto
  define p2 where "p2 = p1 + length ws2 + 1 + length ws3"
  obtain w where w: "w \<in> {js ''Present'', js ''Current'', js ''Ongoing''}"
    and wt: "map asciiLower tok = map asciiLower w"
    using sentinel_cases[OF tok] by blast
  have wu: "map asciiUpper tok = map asciiUpper w" by (rule map_lower_eq_upper_eq[OF wt])
  have m3: "(p2 + length w, post, g1) \<in> set (ms (LitI w) (p2, tok @ post, g1))"
    by (rule LitI_intro[OF wu])
  have m3': "(p2 + length w, post, g1) \<in> set (ms W (p2, tok @ post, g1))"
    using w m3 by (auto simp: W_def ms.simps(5))
  have m3'': "(p2 + length w, post, g1(2 \<mapsto> (p2, p2 + length w)))
      \<in> set (ms (Grp 2 W) (p2, tok @ post, g1))"
    by (rule Grp_intro[OF m3'])
  have "(p2 + length w, post, g1(2 \<mapsto> (p2, p2 + length w)))
      \<in> set (ms P1 (p, mon @ ws1 @ yr @ ws2 @ [d] @ ws3 @ tok @ post, g0))"
    unfolding P1_def using Seq_intro[OF m1' Seq_intro[OF m2[folded p2_def] m3'']] .
  then have "ms P1 (0 + length pre, mon @ ws1 @ yr @ ws2 @ [d] @ ws3 @ tok @ post, Map.empty) \<noteq> []"
    unfolding p_def g0_def by auto
  from rx_from_finds[OF this] obtain m where m: "rx_match P1 text = Some m"
    unfolding rx_match_def decomp by auto
  then have fm: "firstMatch patterns text = Some m"
    by (subst pats) simp
  \<comment> \<open>and whatever match it returns has a sentinel word as its second group\<close>
  from m obtain k q rs g tl where k: "k \<le> length text"
    "ms P1 (k, drop k text, Map.empty) = (q, rs, g) # tl" "m_caps m = g"
    by (rule match_group_slice)
  then have "(q, rs, g) \<in> set (ms P1 (k, drop k text, Map.empty))" by simp
  from pattern1_sound[OF this[unfolded P1_def W_def]] obtain a v where
    v: "v \<in> {js ''Present'', js ''Current'', js ''Ongoing''}" "k \<le> a" "g 2 = Some (a, a + length v)"
    "map asciiUpper (take (length v) (drop (a - k) (drop k text))) = map asciiUpper v"
    by blast
  have g2: "grp text m 2 = Some (take (length v) (drop a text))"
    using v(3) k(3) by (simp add: grp_def slice_def)
  have "drop (a - k) (drop k text) = drop a text" using v(2) by simp
  with v(4) have "map asciiUpper (take (length v) (drop a text)) = map asciiUpper v" by simp
  from sentinel2_holds[OF v(1) this] have "isSentinel2 E (grp text m 2)" by (simp add: g2)
  then show ?thesis
    by (simp add: extractDateRange_def fm Let_def endString_def)
qed

lemma Rep_elim:
  assumes "(q, r', g') \<in> set (ms (Rep c lo hi) (p, r, g))"
  obtains k where "q = p + k" "r' = drop k r" "g' = g" "lo \<le> k" "k \<le> length r"
    "list_all c (take k r)" "case hi of None \<Rightarrow> True | Some h \<Rightarrow> k \<le> h"
  using assms unfolding set_ms_Rep by blast

lemma monthYear_elim:
  assumes "(q, r', g') \<in> set (ms monthYear (p, L, g))"
  obtains k1 k2 where "3 \<le> k1" "k1 \<le> 9" "1 \<le> k2" "k1 + k2 + 4 \<le> length L"
    "list_all isLetter (take k1 L)" "list_all isWs (take k2 (drop k1 L))"
    "list_all isDigit (take 4 (drop (k1 + k2) L))"
    "q = p + k1 + k2 + 4" "r' = drop (k1 + k2 + 4) L" "g' = g"
proof -
  from Seq_elim[OF assms[unfolded monthYear_def]] obtain p1 r1 g1 where
    1: "(p1, r1, g1) \<in> set (ms (Rep isLetter 3 (Some 9)) (p, L, g))"
    and 2: "(q, r', g') \<in> set (ms (Seq (Rep isWs 1 None) (Rep isDigit 4 (Some 4))) (p1, r1, g1))"
    by (metis prod_cases3)
  from Seq_elim[OF 2] obtain p2 r2 g2 where
    3: "(p2, r2, g2) \<in> set (ms (Rep isWs 1 None) (p1, r1, g1))"
    and 4: "(q, r', g') \<in> set (ms (Rep isDigit 4 (Some 4)) (p2, r2, g2))"
    by (metis prod_cases3)
  from 1 obtain k1 where k1: "p1 = p + k1" "r1 = drop k1 L" "g1 = g" "3 \<le> k1" "k1 \<le> length L"
    "list_all isLetter (take k1 L)" "k1 \<le> 9"
    by (rule Rep_elim) auto
  from 3 obtain k2 where k2: "p2 = p1 + k2" "r2 = drop k2 r1" "g2 = g1" "1 \<le> k2" "k2 \<le> length r1"
    "list_all isWs (take k2 r1)"
    by (rule Rep_elim) auto
  from 4 obtain k3 where k3: "q = p2 + k3" "r' = drop k3 r2" "g' = g2" "4 \<le> k3" "k3 \<le> length r2"
    "list_all isDigit (take k3 r2)" "k3 \<le> 4"
    by (rule Rep_elim) auto
  have k34: "k3 = 4" using k3 by simp
  have r2: "r2 = drop (k1 + k2) L" using k1 k2 by (simp add: add.commute)
  have len: "k1 + k2 + 4 \<le> length L" using k3(5) k34 r2 by simp
  show ?thesis
  proof (rule that[of k1 k2])
    show "list_all isWs (take k2 (drop k1 L))" using k2 k1 by simp
    show "list_all isDigit (take 4 (drop (k1 + k2) L))" using k3 k34 r2 by simp
    show "q = p + k1 + k2 + 4" using k1 k2 k3 k34 by simp
    show "r' = drop (k1 + k2 + 4) L" using k3 k34 r2 by (simp add: add.commute)
    show "g' = g" using k1 k2 k3 by simp
  qed (use k1 k2 len in auto)
qed

lemma dashSep_elim:
  assumes "(q, r', g') \<in> set (ms dashSep (p, L, g))"
  obtains k3 k4 where "list_all isWs (take k3 L)" "k3 < length L" "isDash (L ! k3)"
    "list_all isWs (take k4 (drop (k3 + 1) L))" "k3 + 1 + k4 \<le> length L"
    "q = p + k3 + 1 + k4" "r' = drop (k3 + 1 + k4) L" "g' = g"
proof -
  from Seq_elim[OF assms[unfolded dashSep_def]] obtain p1 r1 g1 where
    1: "(p1, r1, g1) \<in> set (ms (Rep isWs 0 None) (p, L, g))"
    and 2: "(q, r', g') \<in> set (ms (Seq (Rep isDash 1 (Some 1)) (Rep isWs 0 None)) (p1, r1, g1))"
    by (metis prod_cases3)
  from Seq_elim[OF 2] obtain p2 r2 g2 where
    3: "(p2, r2, g2) \<in> set (ms (Rep isDash 1 (Some 1)) (p1, r1, g1))"
    and 4: "(q, r', g') \<in> set (ms (Rep isWs 0 None) (p2, r2, g2))"
    by (metis prod_cases3)
  from 1 obtain k3 where k3: "p1 = p + k3" "r1 = drop k3 L" "g1 = g" "k3 \<le> length L"
    "list_all isWs (take k3 L)"
    by (rule Rep_elim) auto
  from 3 obtain k where k: "p2 = p1 + k" "r2 = drop k r1" "g2 = g1" "1 \<le> k" "k \<le> length r1"
    "list_all isDash (take k r1)" "k \<le> 1"
    by (rule Rep_elim) auto
  from 4 obtain k4 where k4: "q = p2 + k4" "r' = drop k4 r2" "g' = g2" "k4 \<le> length r2"
    "list_all isWs (take k4 r2)"
    by (rule Rep_elim) auto
  have k1: "k = 1" using k by simp
  have lt: "k3 < length L" using k(5) k1 k3 by simp
  have "take 1 (drop k3 L) = [L ! k3]" using lt
    by (metis One_nat_def Cons_nth_drop_Suc take0 take_Suc_Cons)
  then have dash: "isDash (L ! k3)" using k(6) k1 k3 by simp
  have r2: "r2 = drop (k3 + 1) L" using k k1 k3 by (simp add: add.commute)
  show ?thesis
  proof (rule that[of k3 k4])
    show "list_all isWs (take k4 (drop (k3 + 1) L))" using k4 r2 by simp
    show "k3 + 1 + k4 \<le> length L" using k4(4) r2 lt by simp
    show "q = p + k3 + 1 + k4" using k3 k k1 k4 by simp
    show "r' = drop (k3 + 1 + k4) L" using k4 r2 by (simp add: add.commute)
    show "g' = g" using k3 k k4 by simp
  qed (use k3 lt dash in auto)
qed

lemma list_all_take_nth: "list_all c (take k L) \<Longrightarrow> i < k \<Longrightarrow> i < length L \<Longrightarrow> c (L ! i)"
  by (simp add: list_all_length)

lemma letter_not_digit: "isLetter c \<Longrightarrow> \<not> isDigit c"
  by (auto simp: isLetter_def isUpperAZ_def isLowerAZ_def isDigit_def)

lemma ws_not_digit: "isWs c \<Longrightarrow> \<not> isDigit c"
  by (auto simp: isWs_def isDigit_def)

lemma ws_not_dash: "isWs c \<Longrightarrow> \<not> isDash c"
  by (auto simp: isWs_def isDash_def)

lemma letter_not_ws: "isLetter c \<Longrightarrow> \<not> isWs c"
  by (auto simp: isLetter_def isUpperAZ_def isLowerAZ_def isWs_def)

lemma letter_plain: "isLetter c \<Longrightarrow> plainCU c"
  by (auto simp: isLetter_def isUpperAZ_def isLowerAZ_def plainCU_def)

lemma digit_plain: "isDigit c \<Longrightarrow> plainCU c"
  by (auto simp: isDigit_def plainCU_def)

lemma ws_plain: "isWs c \<Longrightarrow> plainCU c"
  by (simp add: plainCU_def)

lemma upper_eq_letter: "asciiUpper c = asciiUpper d \<Longrightarrow> isLetter d \<Longrightarrow> isLetter c"
  by (auto simp: asciiUpper_def isLetter_def isUpperAZ_def isLowerAZ_def split: if_splits)

lemma map_upper_eq_letters:
  "map asciiUpper t = map asciiUpper l \<Longrightarrow> list_all isLetter l \<Longrightarrow> list_all isLetter t"
proof (induction t arbitrary: l)
  case Nil
  then show ?case by simp
next
  case (Cons c t)
  then obtain d l' where l: "l = d # l'" and 1: "asciiUpper c = asciiUpper d"
    and 2: "map asciiUpper t = map asciiUpper l'" and 3: "isLetter d" "list_all isLetter l'"
    by (cases l) auto
  show ?case using Cons.IH[OF 2 3(2)] upper_eq_letter[OF 1 3(1)] by simp
qed

lemma rx_from_leftmost:
  assumes "ms r (p + length pre, rest, Map.empty) \<noteq> []"
  shows "\<exists>m k q rs g tl. rx_from r p (pre @ rest) = Some m \<and> k \<le> length pre
           \<and> ms r (p + k, drop k (pre @ rest), Map.empty) = (q, rs, g) # tl
           \<and> m = \<lparr>m_start = p + k, m_end = q, m_caps = g\<rparr>"
  using assms
proof (induction pre arbitrary: p)
  case Nil
  then obtain q rs g tl where e: "ms r (p, rest, Map.empty) = (q, rs, g) # tl"
    by (cases "ms r (p, rest, Map.empty)") auto
  then have "rx_from r p rest = Some \<lparr>m_start = p, m_end = q, m_caps = g\<rparr>"
    by (cases rest) auto
  with e show ?case
    by (intro exI[of _ "\<lparr>m_start = p, m_end = q, m_caps = g\<rparr>"] exI[of _ 0] exI[of _ q]
        exI[of _ rs] exI[of _ g] exI[of _ tl]) simp
next
  case (Cons c pre)
  show ?case
  proof (cases "ms r (p, c # pre @ rest, Map.empty)")
    case Nil
    from Cons.prems have "ms r (Suc p + length pre, rest, Map.empty) \<noteq> []" by simp
    from Cons.IH[OF this] obtain m k q rs g tl where
      i: "rx_from r (Suc p) (pre @ rest) = Some m" "k \<le> length pre"
      "ms r (Suc p + k, drop k (pre @ rest), Map.empty) = (q, rs, g) # tl"
      "m = \<lparr>m_start = Suc p + k, m_end = q, m_caps = g\<rparr>" by blast
    with Nil show ?thesis
      by (intro exI[of _ m] exI[of _ "Suc k"] exI[of _ q] exI[of _ rs] exI[of _ g] exI[of _ tl])
        simp
  next
    case (Cons st tl)
    obtain q rs g where st: "st = (q, rs, g)" by (cases st) auto
    with Cons show ?thesis
      by (intro exI[of _ "\<lparr>m_start = p, m_end = q, m_caps = g\<rparr>"] exI[of _ 0] exI[of _ q]
        exI[of _ rs] exI[of _ g] exI[of _ tl]) simp
  qed
qed

lemma sentinel1_word:
  assumes "map asciiLower tok \<in> {js ''present'', js ''current''}"
  obtains w where "w \<in> {js ''Present'', js ''Current''}" "map asciiUpper tok = map asciiUpper w"
    "length tok = 7" "list_all isLetter tok" "list_all plainCU tok"
proof -
  from assms consider "map asciiLower tok = js ''present''" | "map asciiLower tok = js ''current''"
    by blast
  then obtain w where w: "w \<in> {js ''Present'', js ''Current''}"
    and e: "map asciiLower tok = map asciiLower w"
  proof cases
    case 1
    then have "map asciiLower tok = map asciiLower (js ''Present'')" by (simp only: lower_sentinels)
    then show ?thesis using that by blast
  next
    case 2
    then have "map asciiLower tok = map asciiLower (js ''Current'')" by (simp only: lower_sentinels)
    then show ?thesis using that by blast
  qed
  have u: "map asciiUpper tok = map asciiUpper w" by (rule map_lower_eq_upper_eq[OF e])
  have lw: "length w = 7" "list_all isLetter w" "list_all (\<lambda>d. d < 128) w"
    using w by (auto simp: js_def isLetter_def isUpperAZ_def isLowerAZ_def)
  have "length tok = length w" using u by (metis length_map)
  then show ?thesis
    using that[OF w u] lw map_upper_eq_letters[OF u lw(2)] map_upper_eq_plain[OF u lw(3)] by simp
qed

lemma sentinel1_holds:
  assumes "map asciiLower tok \<in> {js ''present'', js ''current''}" and "list_all plainCU (tok @ ext)"
  shows "isSentinel1 E (Some (tok @ ext))"
proof -
  have "toLowerCase E (tok @ ext) = map asciiLower tok @ map asciiLower ext"
    using assms(2) by (simp add: toLowerCase_plain)
  moreover have "includesStr (map asciiLower tok @ map asciiLower ext) (map asciiLower tok)"
    by (rule includesStr_append)
  ultimately show ?thesis using assms(1) by (auto simp: isSentinel1_def)
qed

lemma sentinel1_group:
  assumes m: "(q, r', g') \<in> set (ms (Grp 2 (Alt monthYear (Alt (LitI (js ''Present''))
                 (LitI (js ''Current''))))) (a, drop k4 (ws3 @ tok @ post), g))"
    and k4: "k4 \<le> length (ws3 @ tok @ post)" "list_all isWs (take k4 (ws3 @ tok @ post))"
    and ws3: "list_all isWs ws3"
    and tok: "map asciiLower tok \<in> {js ''present'', js ''current''}"
  shows "k4 = length ws3 \<and> g' 2 = Some (a, q) \<and> a \<le> q
           \<and> isSentinel1 E (Some (take (q - a) (tok @ post)))"
proof -
  from tok obtain w where w: "w \<in> {js ''Present'', js ''Current''}"
    "map asciiUpper tok = map asciiUpper w" and len: "length tok = 7"
    and letters: "list_all isLetter tok" and plain: "list_all plainCU tok"
    by (rule sentinel1_word)
  define L where "L = ws3 @ tok @ post"
  define M where "M = drop k4 L"
  have t0: "isLetter (tok ! 0)" using letters len by (simp add: list_all_length)
  have L0: "L ! length ws3 = tok ! 0" using len by (simp add: L_def nth_append)
  have le: "k4 \<le> length ws3"
  proof (rule ccontr)
    assume "\<not> k4 \<le> length ws3"
    then have "isWs (L ! length ws3)"
      using list_all_take_nth[OF k4(2), of "length ws3"] len by (simp add: L_def)
    with t0 L0 letter_not_ws show False by simp
  qed
  \<comment> \<open>a match of the group starts with a letter, so all of the white space is skipped\<close>
  have start: "k4 = length ws3" if "M \<noteq> []" "isLetter (M ! 0)"
  proof (rule ccontr)
    assume "k4 \<noteq> length ws3"
    with le have lt: "k4 < length ws3" by simp
    then have "M ! 0 = ws3 ! k4" by (simp add: M_def L_def nth_append)
    moreover have "isWs (ws3 ! k4)" using ws3 lt by (simp add: list_all_length)
    ultimately show False using that letter_not_ws by simp
  qed
  have Mtok: "M = tok @ post" if "k4 = length ws3" using that by (simp add: M_def L_def)
  from Grp_elim[OF m] obtain g0 where
    alt: "(q, r', g0) \<in> set (ms (Alt monthYear (Alt (LitI (js ''Present'')) (LitI (js ''Current''))))
            (a, M, g))"
    and g': "g' = g0(2 \<mapsto> (a, q))" unfolding M_def L_def by blast
  from Alt_elim[OF alt] consider
    (my) "(q, r', g0) \<in> set (ms monthYear (a, M, g))"
    | (lit) v where "v \<in> {js ''Present'', js ''Current''}" "(q, r', g0) \<in> set (ms (LitI v) (a, M, g))"
    using Alt_elim by blast
  then show ?thesis
  proof cases
    case my
    then obtain k1 k2 where k: "3 \<le> k1" "1 \<le> k2" "k1 + k2 + 4 \<le> length M"
      "list_all isLetter (take k1 M)" "list_all isWs (take k2 (drop k1 M))"
      "list_all isDigit (take 4 (drop (k1 + k2) M))" "q = a + k1 + k2 + 4"
      by (rule monthYear_elim)
    have ne: "M \<noteq> []" using k(3) by auto
    then have "isLetter (M ! 0)" using list_all_take_nth[OF k(4), of 0] k(1) by simp
    with ne have k4eq: "k4 = length ws3" by (rule start)
    note M = Mtok[OF k4eq]
    have k1: "7 \<le> k1"
    proof (rule ccontr)
      assume "\<not> 7 \<le> k1"
      then have lt: "k1 < length tok" using len by simp
      have "isWs (drop k1 M ! 0)" using list_all_take_nth[OF k(5), of 0] k(2,3) by simp
      then have "isWs (M ! k1)" using k(3) by simp
      moreover have "M ! k1 = tok ! k1" using lt by (simp add: M nth_append)
      moreover have "isLetter (tok ! k1)" using letters lt by (simp add: list_all_length)
      ultimately show False using letter_not_ws by simp
    qed
    define n where "n = k1 + k2 + 4"
    have split: "take n M = take k1 M @ take k2 (drop k1 M) @ take 4 (drop (k1 + k2) M)"
      unfolding n_def by (simp add: take_add add.commute)
    have "list_all plainCU (take k1 M)" using k(4) by (auto simp: list_all_iff letter_plain)
    moreover have "list_all plainCU (take k2 (drop k1 M))"
      using k(5) by (auto simp: list_all_iff ws_plain)
    moreover have "list_all plainCU (take 4 (drop (k1 + k2) M))"
      using k(6) by (auto simp: list_all_iff digit_plain)
    ultimately have pl: "list_all plainCU (take n M)" unfolding split by simp
    have tk: "take n M = tok @ take (n - 7) post" using k1 len by (simp add: M n_def)
    have s1: "isSentinel1 E (Some (tok @ take (n - 7) post))"
      using pl unfolding tk by (rule sentinel1_holds[OF tok])
    have qa: "q - a = n" using k(7) by (simp add: n_def)
    have "take (q - a) (tok @ post) = tok @ take (n - 7) post"
      using tk unfolding qa M .
    with s1 have "isSentinel1 E (Some (take (q - a) (tok @ post)))" by (simp only:)
    with k4eq g' k(7) show ?thesis by simp
  next
    case lit
    from LitI_elim[OF lit(2)] have q: "q = a + length v"
      and e: "map asciiUpper (take (length v) M) = map asciiUpper v" by auto
    have v: "length v = 7" "isLetter (v ! 0)"
      using lit(1) by (auto simp: js_def isLetter_def isUpperAZ_def isLowerAZ_def)
    have lm: "length (take 7 M) = 7" using e v(1) by (metis length_map)
    then have ne: "M \<noteq> []" by auto
    have "asciiUpper (take 7 M ! 0) = asciiUpper (v ! 0)"
      using e v(1) lm by (metis nth_map zero_less_numeral)
    then have "isLetter (take 7 M ! 0)" using v(2) by (rule upper_eq_letter)
    then have "isLetter (M ! 0)" by simp
    with ne have k4eq: "k4 = length ws3" by (rule start)
    note M = Mtok[OF k4eq]
    have "take (q - a) (tok @ post) = tok @ []" using q v(1) len by simp
    moreover have "isSentinel1 E (Some (tok @ []))"
      using plain by (intro sentinel1_holds[OF tok]) simp
    ultimately have "isSentinel1 E (Some (take (q - a) (tok @ post)))" by simp
    with k4eq g' q show ?thesis by simp
  qed
qed

lemma Alt_intro1: "st' \<in> set (ms a st) \<Longrightarrow> st' \<in> set (ms (Alt a b) st)"
  by (simp add: ms.simps)

lemma Alt_intro2: "st' \<in> set (ms b st) \<Longrightarrow> st' \<in> set (ms (Alt a b) st)"
  by (simp add: ms.simps)

subsection \<open>The companies of \<open>parseWorkExperience\<close>\<close>

lemma company_collectLine:
  "currentExp st = Some cur \<Longrightarrow>
     map company (pushCurrent (collectLine line cur st)) = map company (experiences st @ [cur])"
  by (simp add: collectLine_def pushCurrent_def)

lemma company_workStep:
  "map company (pushCurrent (workStep E lines st i)) =
     map company (pushCurrent st)
       @ (if rx_test dateRangePattern (trim (lines ! i))
          then [if i > 0 then trim (lines ! (i - 1)) else []] else [])"
proof (cases "rx_test dateRangePattern (trim (lines ! i))")
  case True
  then show ?thesis
    by (simp add: workStep_def Let_def openEntry_def pushCurrent_def)
next
  case False
  show ?thesis
  proof (cases "currentExp st")
    case None
    with False show ?thesis by (simp add: workStep_def pushCurrent_def)
  next
    case (Some cur)
    with False show ?thesis
      using company_collectLine[of st cur "trim (lines ! i)"]
      by (simp add: workStep_def pushCurrent_def)
  qed
qed

lemma company_fold:
  "map company (pushCurrent (foldl (workStep E lines) st [0 ..< k])) =
     map company (pushCurrent st)
       @ map (\<lambda>i. if i > 0 then trim (lines ! (i - 1)) else [])
           (filter (\<lambda>i. rx_test dateRangePattern (trim (lines ! i))) [0 ..< k])"
proof (induction k)
  case 0
  show ?case by simp
next
  case (Suc k)
  show ?case by (simp add: company_workStep Suc.IH)
qed

subsection \<open>Section detection\<close>

lemma keywordLoop_hit: "list_ex q kws \<Longrightarrow> keywordLoop q sec kws = [sec]"
  by (induction kws) auto

lemma keywordLoop_cases: "keywordLoop q sec kws = (if list_ex q kws then [sec] else [])"
  by (induction kws) auto

lemma typeLoop_mem:
  assumes "(ty, kws) \<in> set table" "list_ex q kws"
  shows "\<lparr>ptype = ty, pstart = i, pheader = h\<rparr> \<in> set (typeLoop q table i h)"
  using assms by (force simp: typeLoop_def keywordLoop_cases)

lemma addEndIndices_start:
  "map (\<lambda>s. (stype s, startIndex s)) (addEndIndices n xs) = map (\<lambda>s. (ptype s, pstart s)) xs"
  by (induction n xs rule: addEndIndices.induct) auto

lemma project_experience_line:
  "toLowerCase E (js ''Project Experience'') = js ''project experience''"
  by (simp add: toLowerCase_def js_def class_defs)

lemma double_label2:
  "set (lineSections2 E [js ''Project Experience''] 0) \<supseteq>
     {\<lparr>ptype = ''experience'', pstart = 0, pheader = js ''Project Experience''\<rparr>,
      \<lparr>ptype = ''projects'', pstart = 0, pheader = js ''Project Experience''\<rparr>}"
proof -
  let ?l = "js ''project experience''"
  have t: "trim (js ''Project Experience'') = js ''Project Experience''"
    by (simp add: trim_def js_def class_defs)
  have skip: "\<not> (length ?l < 3 \<or> startsWith ?l [bullet] \<or> startsWithDigit ?l)"
    by (simp add: startsWithDigit_def bullet_def startsWith_def rx_eval class_defs)
  have 1: "list_ex (qualifies2 E ?l) (map js [''experience'', ''work experience'', ''employment'',
        ''professional experience'', ''career history'', ''work history''])"
    by (simp add: qualifies2_def js_def startsWith_def)
  have 2: "list_ex (qualifies2 E ?l) (map js [''projects'', ''key projects'', ''notable projects'',
        ''project experience''])"
    by (simp add: qualifies2_def)
  have a: "\<lparr>ptype = ''experience'', pstart = 0, pheader = js ''Project Experience''\<rparr>
      \<in> set (typeLoop (qualifies2 E ?l) sectionKeywords2 0 (js ''Project Experience''))"
    by (rule typeLoop_mem[OF _ 1]) (simp add: sectionKeywords2_def)
  have b: "\<lparr>ptype = ''projects'', pstart = 0, pheader = js ''Project Experience''\<rparr>
      \<in> set (typeLoop (qualifies2 E ?l) sectionKeywords2 0 (js ''Project Experience''))"
    by (rule typeLoop_mem[OF _ 2]) (simp add: sectionKeywords2_def)
  have "lineSections2 E [js ''Project Experience''] 0
      = typeLoop (qualifies2 E ?l) sectionKeywords2 0 (js ''Project Experience'')"
    using skip by (simp add: lineSections2_def project_experience_line t Let_def)
  with a b show ?thesis by simp
qed

lemma double_label1:
  "set (lineSections1 E [js ''Project Experience''] 0) \<supseteq>
     {\<lparr>ptype = ''experience'', pstart = 0, pheader = js ''Project Experience''\<rparr>,
      \<lparr>ptype = ''projects'', pstart = 0, pheader = js ''Project Experience''\<rparr>}"
proof -
  let ?l = "js ''project experience''"
  have t: "trim (js ''Project Experience'') = js ''Project Experience''"
    by (simp add: trim_def js_def class_defs)
  have 1: "list_ex (qualifies1 E ?l) (map js [''experience'', ''work experience'', ''employment'',
        ''professional experience'', ''career history'', ''work history''])"
    by (simp add: qualifies1_def js_def startsWith_def)
  have 2: "list_ex (qualifies1 E ?l) (map js [''projects'', ''key projects'', ''notable projects'',
        ''project experience''])"
    by (simp add: qualifies1_def)
  have a: "\<lparr>ptype = ''experience'', pstart = 0, pheader = js ''Project Experience''\<rparr>
      \<in> set (typeLoop (qualifies1 E ?l) sectionKeywords1 0 (js ''Project Experience''))"
    by (rule typeLoop_mem[OF _ 1]) (simp add: sectionKeywords1_def)
  have b: "\<lparr>ptype = ''projects'', pstart = 0, pheader = js ''Project Experience''\<rparr>
      \<in> set (typeLoop (qualifies1 E ?l) sectionKeywords1 0 (js ''Project Experience''))"
    by (rule typeLoop_mem[OF _ 2]) (simp add: sectionKeywords1_def)
  have "lineSections1 E [js ''Project Experience''] 0
      = typeLoop (qualifies1 E ?l) sectionKeywords1 0 (js ''Project Experience'')"
    by (simp add: lineSections1_def project_experience_line t Let_def)
  with a b show ?thesis by simp
qed

subsection \<open>Trimmed lines and their words\<close>

lemma last_dropWhile: "dropWhile P xs \<noteq> [] \<Longrightarrow> last (dropWhile P xs) = last xs"
  by (induction xs) (auto split: if_splits)

lemma trim_ends:
  assumes "trim s \<noteq> []"
  shows "\<not> isWs (hd (trim s))" "\<not> isWs (last (trim s))"
proof -
  define a where "a = dropWhile isWs s"
  define b where "b = dropWhile isWs (rev a)"
  have t: "trim s = rev b" by (simp add: trim_def a_def b_def)
  with assms have b: "b \<noteq> []" by simp
  then have ra: "rev a \<noteq> []" by (auto simp: b_def)
  then have a: "a \<noteq> []" by simp
  have "\<not> isWs (hd b)" using b unfolding b_def by (rule hd_dropWhile)
  then show "\<not> isWs (last (trim s))" using b by (simp add: t last_rev)
  have "last b = last (rev a)" using b unfolding b_def by (rule last_dropWhile)
  also have "\<dots> = hd a" using a by (simp add: last_rev)
  finally have "hd (trim s) = hd a" using b by (simp add: t hd_rev)
  moreover have "\<not> isWs (hd a)" using a unfolding a_def by (rule hd_dropWhile)
  ultimately show "\<not> isWs (hd (trim s))" by simp
qed

lemma consHead_props: "consHead c xs \<noteq> [] \<and> hd (consHead c xs) \<noteq> [] \<and> tl (consHead c xs) = tl xs"
  by (cases xs) auto

lemma splitRunsFrom_pieces:
  "s \<noteq> [] \<Longrightarrow> \<not> sep (last s) \<Longrightarrow>
     splitRunsFrom sep prev s \<noteq> [] \<and> list_all (\<lambda>w. w \<noteq> []) (tl (splitRunsFrom sep prev s))
     \<and> ((prev \<or> \<not> sep (hd s)) \<longrightarrow> hd (splitRunsFrom sep prev s) \<noteq> [])"
proof (induction s arbitrary: prev)
  case Nil
  then show ?case by simp
next
  case (Cons c cs)
  show ?case
  proof (cases "sep c")
    case True
    with Cons.prems have cs: "cs \<noteq> []" "\<not> sep (last cs)" by (auto split: if_splits)
    from Cons.IH[OF cs, of True]
    have ih: "splitRunsFrom sep True cs \<noteq> []" "list_all (\<lambda>w. w \<noteq> []) (tl (splitRunsFrom sep True cs))"
      "hd (splitRunsFrom sep True cs) \<noteq> []" by auto
    then have all: "list_all (\<lambda>w. w \<noteq> []) (splitRunsFrom sep True cs)"
      by (cases "splitRunsFrom sep True cs") auto
    show ?thesis using True ih all by simp
  next
    case False
    show ?thesis
    proof (cases "cs = []")
      case True
      with False show ?thesis by simp
    next
      case ne: False
      with Cons.prems have "\<not> sep (last cs)" by simp
      from Cons.IH[OF ne this, of False]
      have "list_all (\<lambda>w. w \<noteq> []) (tl (splitRunsFrom sep False cs))" by simp
      with False show ?thesis by (simp add: consHead_props)
    qed
  qed
qed

lemma splitRuns_nonempty_words:
  assumes "s \<noteq> []" "\<not> sep (hd s)" "\<not> sep (last s)"
  shows "list_all (\<lambda>w. w \<noteq> []) (splitRuns sep s)"
proof -
  from splitRunsFrom_pieces[of s sep False] assms
  have "splitRunsFrom sep False s \<noteq> []" "list_all (\<lambda>w. w \<noteq> []) (tl (splitRunsFrom sep False s))"
    "hd (splitRunsFrom sep False s) \<noteq> []" by auto
  then show ?thesis unfolding splitRuns_def by (cases "splitRunsFrom sep False s") auto
qed

lemma normalize_lines:
  assumes "l \<in> set (normalizeLines text)"
  shows "l \<noteq> []" "\<not> isWs (hd l)" "\<not> isWs (last l)"
proof -
  from assms obtain s where l: "l = trim s" "trim s \<noteq> []" by (auto simp: normalizeLines_def)
  then show "l \<noteq> []" by simp
  from trim_ends[OF l(2)] l(1) show "\<not> isWs (hd l)" "\<not> isWs (last l)" by auto
qed

lemma everyCapital_total:
  "list_all (\<lambda>w. w \<noteq> []) ws \<Longrightarrow> \<exists>b. everyCapital E ws = Inr b"
proof (induction ws)
  case Nil
  then show ?case by auto
next
  case (Cons w ws)
  then obtain c cs where "w = c # cs" by (cases w) auto
  with Cons show ?case by auto
qed

lemma nameTest2_total:
  assumes "l \<noteq> []" "\<not> isWs (hd l)" "\<not> isWs (last l)"
  shows "\<exists>b. nameTest2 E l = Inr b"
  using everyCapital_total[OF splitRuns_nonempty_words[OF assms]]
  by (auto simp: nameTest2_def Let_def)

lemma findName2_total:
  "(\<And>l. l \<in> set ls \<Longrightarrow> l \<noteq> [] \<and> \<not> isWs (hd l) \<and> \<not> isWs (last l)) \<Longrightarrow> \<exists>r. findName2 E ls = Inr r"
proof (induction ls)
  case Nil
  then show ?case by simp
next
  case (Cons l ls)
  from Cons.prems[of l] obtain b where b: "nameTest2 E l = Inr b"
    using nameTest2_total[of l E] by auto
  from Cons.IH Cons.prems obtain r where "findName2 E ls = Inr r" by auto
  with b show ?case by (cases b) auto
qed

lemma name2_total: "\<exists>n. name2 E (normalizeLines text) = Inr n"
proof -
  have "\<exists>r. findName2 E (normalizeLines text) = Inr r"
    by (rule findName2_total) (use normalize_lines in blast)
  then show ?thesis by (auto simp: name2_def split: option.splits)
qed

lemma skillTokens_lengths:
  "s \<in> set (skillTokens t) \<Longrightarrow> 1 < length s \<and> length s < 50 \<and> trim s = s"
proof -
  have idem: "trim (trim x) = trim x" for x
  proof (cases "trim x = []")
    case True
    have "trim [] = []" by (simp add: trim_def)
    with True show ?thesis by simp
  next
    case False
    from trim_ends[OF False] False have 1: "dropWhile isWs (trim x) = trim x"
      by (cases "trim x") auto
    from trim_ends[OF False] False have "dropWhile isWs (rev (trim x)) = rev (trim x)"
      by (cases "rev (trim x)") (auto simp: last_rev hd_rev dest: arg_cong[where f = hd])
    with 1 show ?thesis by (simp add: trim_def[of "trim x"])
  qed
  assume "s \<in> set (skillTokens t)"
  then show ?thesis by (auto simp: skillTokens_def idem)
qed

subsection \<open>The records of the parse functions\<close>

lemma set_uniq: "set (uniq xs) = set xs"
  by (simp add: uniq_def)

lemma field_record2:
  "field (record2 n c ed we sk pr ce) ''skills'' = Some (Strs (uniq sk))"
  "field (record2 n c ed we sk pr ce) ''address'' = Some (Str [])"
  "field (record2 n c ed we sk pr ce) ''summary'' = Some (Str [])"
  "field (record2 n c ed we sk pr ce) ''languages'' = Some (Strs [])"
  "field (record2 n c ed we sk pr ce) ''hobbies'' = Some (Strs [])"
  "map fst (record2 n c ed we sk pr ce) = [''name'', ''email'', ''phone'', ''address'', ''summary'',
     ''linkedin'', ''jobRole'', ''education'', ''workExperience'', ''skills'', ''projects'',
     ''certifications'', ''languages'', ''hobbies'']"
  by (simp_all add: field_def record2_def)

lemma parseResume2_record:
  "\<exists>n c ed we sk pr ce. parseResume2 E text = Inr (record2 n c ed we sk pr ce)
      \<and> sk = skillsPrimary (getSectionLines (detectSections E (normalizeLines text)) (normalizeLines text) ''skills'')"
proof -
  obtain n where "name2 E (normalizeLines text) = Inr n" using name2_total by blast
  then show ?thesis by (simp add: parseResume2_def Let_def) (intro exI, rule refl)
qed

lemma secondary_record:
  "\<exists>n c ed we sk pr ce. parseResumeSecondaryApproach E text = Inr (record2 n c ed we sk pr ce)
      \<and> sk = (case extractRawSections E text ''skills'' of None \<Rightarrow> []
              | Some r \<Rightarrow> skillsSecondary (rawText r))"
proof -
  obtain n where "name2 E (normalizeLines text) = Inr n" using name2_total by blast
  then show ?thesis by (simp add: parseResumeSecondaryApproach_def Let_def) (intro exI, rule refl)
qed

lemma skillsPrimary_lengths:
  "s \<in> set (skillsPrimary ls) \<Longrightarrow> 1 < length s \<and> length s < 50 \<and> trim s = s"
  by (auto simp: skillsPrimary_def dest: skillTokens_lengths)

lemma skillsSecondary_lengths:
  "s \<in> set (skillsSecondary t) \<Longrightarrow> 1 < length s \<and> length s < 50 \<and> trim s = s"
  by (auto simp: skillsSecondary_def dest: skillTokens_lengths split: if_splits)

lemma cleanUp_sparse:
  "list_all (\<lambda>kv. \<not> emptyField (snd kv)
       \<and> snd kv \<notin> {Str [], Strs [], Educations [], Experiences [], Projects [], Certifications []})
     (cleanUp r)"
proof -
  have e: "\<not> emptyField v \<Longrightarrow>
      v \<notin> {Str [], Strs [], Educations [], Experiences [], Projects [], Certifications []}" for v
    by (auto simp: emptyField_def trim_def)
  show ?thesis unfolding cleanUp_def list_all_iff using e by auto
qed

subsection \<open>The search for the name\<close>

lemma rx_test_iff:
  "rx_test r s \<longleftrightarrow> (\<exists>k \<le> length s. ms r (k, drop k s, Map.empty) \<noteq> [])"
proof
  assume "rx_test r s"
  then obtain m where "rx_from r 0 s = Some m" by (auto simp: rx_test_def rx_match_def)
  from rx_from_sound[OF this] show "\<exists>k \<le> length s. ms r (k, drop k s, Map.empty) \<noteq> []"
    by auto
next
  assume "\<exists>k \<le> length s. ms r (k, drop k s, Map.empty) \<noteq> []"
  then obtain k where k: "k \<le> length s" "ms r (k, drop k s, Map.empty) \<noteq> []" by blast
  then have "ms r (0 + length (take k s), drop k s, Map.empty) \<noteq> []" by simp
  from rx_from_finds[OF this] show "rx_test r s" by (simp add: rx_test_def rx_match_def)
qed

lemma ms_Alt_empty: "ms (Alt a b) st = [] \<longleftrightarrow> ms a st = [] \<and> ms b st = []"
  by (simp add: ms.simps)

lemma ms_one_empty: "ms (Rep c 1 (Some 1)) (p, r, g) \<noteq> [] \<longleftrightarrow> r \<noteq> [] \<and> c (hd r)"
  by (cases r) (auto simp: ms.simps run_def)

lemma ms_LitI_empty: "ms (LitI w) (p, r, g) \<noteq> [] \<longleftrightarrow> map asciiUpper (take (length w) r) = map asciiUpper w"
  by (simp add: ms.simps)

lemma includesStr_iff: "includesStr s w \<longleftrightarrow> (\<exists>k \<le> length s. take (length w) (drop k s) = w)"
proof (induction s)
  case Nil
  then show ?case by auto
next
  case (Cons c cs)
  have "(\<exists>k \<le> length (c # cs). take (length w) (drop k (c # cs)) = w)
      \<longleftrightarrow> take (length w) (c # cs) = w \<or> (\<exists>k \<le> length cs. take (length w) (drop k cs) = w)"
    (is "?L \<longleftrightarrow> ?R")
  proof
    assume ?L
    then obtain k where k: "k \<le> length (c # cs)" "take (length w) (drop k (c # cs)) = w" by blast
    show ?R
    proof (cases k)
      case 0
      with k show ?thesis by simp
    next
      case (Suc j)
      with k show ?thesis by auto
    qed
  next
    assume ?R
    then show ?L
    proof
      assume "take (length w) (c # cs) = w"
      then show ?L by (intro exI[of _ 0]) simp
    next
      assume "\<exists>k \<le> length cs. take (length w) (drop k cs) = w"
      then obtain k where "k \<le> length cs" "take (length w) (drop k cs) = w" by blast
      then show ?L by (intro exI[of _ "Suc k"]) simp
    qed
  qed
  with Cons.IH show ?case by (simp add: startsWith_def)
qed

lemma containsCI_iff:
  "containsCI s w \<longleftrightarrow> (\<exists>k \<le> length s. map asciiUpper (take (length w) (drop k s)) = map asciiUpper w)"
proof -
  have "map asciiLower (take (length w) (drop k s)) = map asciiLower w
      \<longleftrightarrow> map asciiUpper (take (length w) (drop k s)) = map asciiUpper w" for k
    using map_lower_eq_upper_eq map_upper_eq_lower_eq by blast
  then show ?thesis
    by (simp add: containsCI_def includesStr_iff take_map drop_map)
qed

lemma hasStopChar_iff:
  "hasStopChar s \<longleftrightarrow> (\<exists>k \<le> length s. drop k s \<noteq> [] \<and>
       (hd (drop k s) = 64 \<or> hd (drop k s) = 43 \<or> isDigit (hd (drop k s))))"
proof
  assume "hasStopChar s"
  then obtain k where k: "k < length s" "s ! k = 64 \<or> s ! k = 43 \<or> isDigit (s ! k)"
    by (auto simp: hasStopChar_def list_ex_iff in_set_conv_nth)
  then show "\<exists>k \<le> length s. drop k s \<noteq> [] \<and>
       (hd (drop k s) = 64 \<or> hd (drop k s) = 43 \<or> isDigit (hd (drop k s)))"
    by (intro exI[of _ k]) (simp add: hd_drop_conv_nth)
next
  assume "\<exists>k \<le> length s. drop k s \<noteq> [] \<and>
       (hd (drop k s) = 64 \<or> hd (drop k s) = 43 \<or> isDigit (hd (drop k s)))"
  then obtain k where k0: "drop k s \<noteq> []"
    and k2: "hd (drop k s) = 64 \<or> hd (drop k s) = 43 \<or> isDigit (hd (drop k s))" by blast
  from k0 have k1: "k < length s" by simp
  note k = k1 k2
  then have "s ! k = 64 \<or> s ! k = 43 \<or> isDigit (s ! k)" by (simp add: hd_drop_conv_nth)
  moreover have "s ! k \<in> set s" using k(1) by simp
  ultimately show "hasStopChar s" unfolding hasStopChar_def list_ex_iff by blast
qed

lemma nameStop2_iff:
  "rx_test nameStop2 s \<longleftrightarrow> hasStopChar s \<or> containsCI s (js ''resume'') \<or> containsCI s (js ''cv'')"
  unfolding rx_test_iff nameStop2_def hasStopChar_iff containsCI_iff
  by (simp only: ms_Alt_empty ms_one_empty ms_LitI_empty de_Morgan_conj not_not) blast

lemma nameStop1_iff:
  "rx_test nameStop1 s \<longleftrightarrow> hasStopChar s \<or> containsCI s (js ''resume'') \<or> containsCI s (js ''cv'')
     \<or> containsCI s (js ''curriculum'')"
  unfolding rx_test_iff nameStop1_def hasStopChar_iff containsCI_iff
  by (simp only: ms_Alt_empty ms_one_empty ms_LitI_empty de_Morgan_conj not_not) blast

lemma extractNameLoop_find:
  "extractNameLoop E ls =
     find (\<lambda>line. nameLike (properCase E) line \<and> \<not> containsCI line (js ''curriculum'')
                  \<and> 3 \<le> length line \<and> length line \<le> 50) (map trim ls)"
proof (induction ls)
  case Nil
  show ?case by simp
next
  case (Cons l ls)
  show ?case
    by (simp add: Let_def Cons.IH nameStop1_iff nameLike_def not_less)
qed

lemma everyCapital_True:
  "everyCapital E ws = Inr True \<Longrightarrow> list_all (capitalised E) ws"
proof (induction ws)
  case Nil
  show ?case by simp
next
  case (Cons w ws)
  then obtain c cs where w: "w = c # cs" by (cases w) auto
  with Cons show ?case by (auto simp: capitalised_def split: if_splits)
qed

lemma nameTest2_True: "nameTest2 E l = Inr True \<Longrightarrow> nameLike (capitalised E) l"
  by (auto simp: nameTest2_def Let_def nameStop2_iff nameLike_def dest: everyCapital_True
      split: if_splits)

lemma findName2_Some:
  "findName2 E ls = Inr (Some l) \<Longrightarrow> l \<in> set ls \<and> nameLike (capitalised E) l"
proof (induction ls)
  case Nil
  then show ?case by simp
next
  case (Cons x xs)
  show ?case
  proof (cases "nameTest2 E x")
    case (Inl e)
    with Cons.prems show ?thesis by simp
  next
    case (Inr b)
    show ?thesis
    proof (cases b)
      case True
      with Inr Cons.prems have "l = x" by simp
      with Inr True show ?thesis by (simp add: nameTest2_True)
    next
      case False
      with Inr Cons.prems have "findName2 E xs = Inr (Some l)" by simp
      from Cons.IH[OF this] show ?thesis by simp
    qed
  qed
qed

lemmas name_eval = extractName_def name2_def nameTest2_def nameStop1_def nameStop2_def properCase_def
  nameLike_def hasStopChar_def containsCI_def capitalised_def firstLine_def
  toUpperCase_def toLowerCase_def startsWith_def

subsection \<open>The slices taken between two headers\<close>

text \<open>The two slicers that work on line indices return only lines on which the header test
  of their own pipeline found nothing.\<close>

lemma keywordLoop_pstart: "s \<in> set (keywordLoop q sec kws) \<Longrightarrow> s = sec"
  by (simp add: keywordLoop_cases split: if_splits)

lemma typeLoop_pstart: "s \<in> set (typeLoop q table i h) \<Longrightarrow> pstart s = i"
  by (auto simp: typeLoop_def dest!: keywordLoop_pstart)

lemma lineSections1_pstart: "s \<in> set (lineSections1 E lines i) \<Longrightarrow> pstart s = i"
  by (auto simp: lineSections1_def Let_def dest: typeLoop_pstart)

lemma lineSections2_pstart: "s \<in> set (lineSections2 E lines i) \<Longrightarrow> pstart s = i"
  by (auto simp: lineSections2_def Let_def dest: typeLoop_pstart split: if_splits)

lemma sorted_concat_upt:
  assumes "\<And>i s. s \<in> set (f i) \<Longrightarrow> pstart s = i"
  shows "sorted (map pstart (concat (map f [0 ..< n])))"
proof (induction n)
  case 0
  show ?case by simp
next
  case (Suc n)
  have "pstart x \<le> pstart y" if "x \<in> set (concat (map f [0 ..< n]))" "y \<in> set (f n)" for x y
  proof -
    from that(1) obtain i where "i < n" "x \<in> set (f i)" by auto
    with assms[of x i] assms[OF that(2)] show ?thesis by simp
  qed
  moreover have "sorted (map pstart (f n))"
  proof -
    have "map pstart (f n) = replicate (length (f n)) n"
      using assms[of _ n] by (simp add: map_replicate_const[symmetric] del: map_replicate_const)
    then show ?thesis by (simp add: sorted_replicate)
  qed
  ultimately show ?case using Suc by (auto simp: sorted_append)
qed

lemma addEndIndices_from:
  "sec \<in> set (addEndIndices n xs) \<Longrightarrow> \<exists>x \<in> set xs. startIndex sec = pstart x"
  by (induction n xs rule: addEndIndices.induct) auto

lemma addEndIndices_gap:
  assumes "sorted (map pstart xs)" "\<And>x. x \<in> set xs \<Longrightarrow> pstart x < n"
    and "sec \<in> set (addEndIndices n xs)" "x \<in> set xs"
  shows "endIndex sec \<le> n \<and> \<not> (startIndex sec < pstart x \<and> pstart x < endIndex sec)"
  using assms
proof (induction n xs arbitrary: x rule: addEndIndices.induct)
  case (1 n)
  then show ?case by simp
next
  case (2 n s)
  then show ?case by auto
next
  case (3 n s t rest)
  from "3.prems"(1) have st: "pstart s \<le> pstart t" and srt: "sorted (map pstart (t # rest))"
    and ge: "\<And>y. y \<in> set (t # rest) \<Longrightarrow> pstart t \<le> pstart y"
    by auto
  from "3.prems"(3) consider (hd) "sec = \<lparr>stype = ptype s, startIndex = pstart s, header = pheader s,
       endIndex = pstart t\<rparr>" | (tl) "sec \<in> set (addEndIndices n (t # rest))" by auto
  then show ?case
  proof cases
    case hd
    have "pstart t < n" using "3.prems"(2)[of t] by simp
    moreover have "\<not> (pstart s < pstart x \<and> pstart x < pstart t)"
      using "3.prems"(4) ge[of x] by auto
    ultimately show ?thesis using hd by simp
  next
    case tl
    show ?thesis
    proof (cases "x = s")
      case True
      from addEndIndices_from[OF tl] obtain y where "y \<in> set (t # rest)" "startIndex sec = pstart y"
        by blast
      with ge[of y] st True have "\<not> startIndex sec < pstart x" by simp
      moreover have "endIndex sec \<le> n"
        using "3.IH"[OF srt _ tl, of t] "3.prems"(2) by auto
      ultimately show ?thesis by simp
    next
      case False
      with "3.prems"(4) have "x \<in> set (t # rest)" by simp
      from "3.IH"[OF srt _ tl this] "3.prems"(2) show ?thesis by auto
    qed
  qed
qed

lemma find_Some_set: "find P xs = Some x \<Longrightarrow> x \<in> set xs"
  by (induction xs) (auto split: if_splits)

lemma getSectionContent_no_header:
  assumes "c \<in> set (getSectionContent (detectSectionBoundaries E lines) lines T)"
  shows "\<exists>i < length lines. c = trim (lines ! i) \<and> lineSections1 E lines i = []"
proof -
  define P where "P = concat (map (lineSections1 E lines) [0 ..< length lines])"
  have "\<exists>sec. find (\<lambda>s. stype s = T) (addEndIndices (length lines) P) = Some sec
      \<and> c \<in> set (map (\<lambda>i. trim (lines ! i)) [startIndex sec + 1 ..< endIndex sec])"
  proof (cases "find (\<lambda>s. stype s = T) (addEndIndices (length lines) P)")
    case None
    with assms show ?thesis by (simp add: getSectionContent_def detectSectionBoundaries_def P_def)
  next
    case (Some sec)
    with assms show ?thesis by (simp add: getSectionContent_def detectSectionBoundaries_def P_def)
  qed
  then obtain sec where f: "find (\<lambda>s. stype s = T) (addEndIndices (length lines) P) = Some sec"
    and c: "c \<in> set (map (\<lambda>i. trim (lines ! i)) [startIndex sec + 1 ..< endIndex sec])"
    by blast
  from c have "\<exists>i. startIndex sec < i \<and> i < endIndex sec \<and> c = trim (lines ! i)"
    by (auto simp: Suc_le_eq)
  then obtain i where i: "startIndex sec < i" "i < endIndex sec" "c = trim (lines ! i)" by blast
  have sec: "sec \<in> set (addEndIndices (length lines) P)" by (rule find_Some_set[OF f])
  have srt: "sorted (map pstart P)" unfolding P_def
    by (rule sorted_concat_upt) (rule lineSections1_pstart)
  have lt: "pstart x < length lines" if "x \<in> set P" for x
    using that lineSections1_pstart unfolding P_def by fastforce
  have gap: "endIndex sec \<le> length lines \<and> \<not> (startIndex sec < pstart x \<and> pstart x < endIndex sec)"
    if "x \<in> set P" for x
    by (rule addEndIndices_gap[OF srt lt sec that])
  from addEndIndices_from[OF sec] obtain y where "y \<in> set P" by blast
  from gap[OF this] i have il: "i < length lines" by simp
  have "lineSections1 E lines i = []"
  proof (rule ccontr)
    assume "lineSections1 E lines i \<noteq> []"
    then obtain x where x: "x \<in> set (lineSections1 E lines i)" by (cases "lineSections1 E lines i") auto
    then have "x \<in> set P" using il by (auto simp: P_def)
    from gap[OF this] lineSections1_pstart[OF x] i show False by simp
  qed
  with il i show ?thesis by blast
qed

lemma getSectionLines_no_header:
  assumes "c \<in> set (getSectionLines (detectSections E lines) lines T)"
  shows "\<exists>i < length lines. c = lines ! i \<and> lineSections2 E lines i = []"
proof -
  define Q where "Q = concat (map (lineSections2 E lines) [0 ..< length lines])"
  define P where "P = sort_key pstart Q"
  have "\<exists>sec. find (\<lambda>s. stype s = T) (addEndIndices (length lines) P) = Some sec
      \<and> c \<in> set (slice lines (startIndex sec + 1) (endIndex sec))"
  proof (cases "find (\<lambda>s. stype s = T) (addEndIndices (length lines) P)")
    case None
    with assms show ?thesis by (simp add: getSectionLines_def detectSections_def P_def Q_def)
  next
    case (Some sec)
    with assms show ?thesis by (simp add: getSectionLines_def detectSections_def P_def Q_def)
  qed
  then obtain sec where f: "find (\<lambda>s. stype s = T) (addEndIndices (length lines) P) = Some sec"
    and c: "c \<in> set (slice lines (startIndex sec + 1) (endIndex sec))"
    by blast
  from c obtain j where j: "j < length (slice lines (startIndex sec + 1) (endIndex sec))"
    "c = slice lines (startIndex sec + 1) (endIndex sec) ! j" by (auto simp: in_set_conv_nth)
  define i where "i = startIndex sec + 1 + j"
  from j have i: "startIndex sec < i" "i < endIndex sec" "i < length lines" "c = lines ! i"
    by (auto simp: slice_def i_def)
  have sec: "sec \<in> set (addEndIndices (length lines) P)" by (rule find_Some_set[OF f])
  have srt: "sorted (map pstart P)" unfolding P_def by (rule sorted_sort_key)
  have setP: "set P = set Q" by (simp add: P_def)
  have lt: "pstart x < length lines" if "x \<in> set P" for x
    using that lineSections2_pstart unfolding setP Q_def by fastforce
  have gap: "endIndex sec \<le> length lines \<and> \<not> (startIndex sec < pstart x \<and> pstart x < endIndex sec)"
    if "x \<in> set P" for x
    by (rule addEndIndices_gap[OF srt lt sec that])
  have "lineSections2 E lines i = []"
  proof (rule ccontr)
    assume "lineSections2 E lines i \<noteq> []"
    then obtain x where x: "x \<in> set (lineSections2 E lines i)" by (cases "lineSections2 E lines i") auto
    then have "x \<in> set P" using i(3) by (auto simp: setP Q_def)
    from gap[OF this] lineSections2_pstart[OF x] i show False by simp
  qed
  with i show ?thesis by blast
qed

subsection \<open>The name search over all the lines\<close>

lemma everyCapital_iff:
  "list_all (\<lambda>w. w \<noteq> []) ws \<Longrightarrow> everyCapital E ws = Inr (list_all (capitalised E) ws)"
proof (induction ws)
  case Nil
  show ?case by simp
next
  case (Cons w ws)
  then obtain c cs where w: "w = c # cs" by (cases w) auto
  with Cons show ?case by (simp add: capitalised_def)
qed

lemma nameTest2_iff:
  assumes "l \<noteq> []" "\<not> isWs (hd l)" "\<not> isWs (last l)"
  shows "nameTest2 E l = Inr (nameLike (capitalised E) l)"
  using everyCapital_iff[OF splitRuns_nonempty_words[OF assms], of E]
  by (auto simp: nameTest2_def Let_def nameStop2_iff nameLike_def)

lemma findName2_find:
  "(\<And>l. l \<in> set ls \<Longrightarrow> l \<noteq> [] \<and> \<not> isWs (hd l) \<and> \<not> isWs (last l)) \<Longrightarrow>
     findName2 E ls = Inr (find (nameLike (capitalised E)) ls)"
proof (induction ls)
  case Nil
  show ?case by simp
next
  case (Cons l ls)
  from Cons.prems[of l] have t: "nameTest2 E l = Inr (nameLike (capitalised E) l)"
    by (intro nameTest2_iff) auto
  from Cons.IH Cons.prems have "findName2 E ls = Inr (find (nameLike (capitalised E)) ls)" by auto
  with t show ?case by simp
qed

lemma name2_find:
  "name2 E (normalizeLines text) =
     Inr (case find (nameLike (capitalised E)) (normalizeLines text) of
            Some line \<Rightarrow> line | None \<Rightarrow> firstLine (normalizeLines text))"
proof -
  have f: "findName2 E (normalizeLines text) = Inr (find (nameLike (capitalised E)) (normalizeLines text))"
    by (rule findName2_find) (use normalize_lines in blast)
  show ?thesis
  proof (cases "find (nameLike (capitalised E)) (normalizeLines text)")
    case None
    with f show ?thesis by (simp add: name2_def firstLine_def)
  next
    case (Some l)
    then have "l \<in> set (normalizeLines text)" by (rule find_Some_set)
    then have "l \<noteq> []" by (rule normalize_lines)
    with f Some show ?thesis by (simp add: name2_def)
  qed
qed

subsection \<open>Capture groups and resolved dates\<close>













subsection \<open>The first range of a fragment\<close>

text \<open>A match of a pattern without anchors that ends inside a prefix of the text is a match
  on that prefix.\<close>

lemma Rep_prefix:
  assumes "(q, r', g') \<in> set (ms (Rep c lo hi) (p, A @ B, g))" "q \<le> p + length A"
  shows "(q, drop (q - p) A, g') \<in> set (ms (Rep c lo hi) (p, A, g))"
proof -
  from assms(1) obtain k where k: "q = p + k" "g' = g" "lo \<le> k" "list_all c (take k (A @ B))"
    "case hi of None \<Rightarrow> True | Some h \<Rightarrow> k \<le> h"
    by (rule Rep_elim)
  from k(1) assms(2) have le: "k \<le> length A" by simp
  with k(4) have "list_all c (take k A)" by simp
  with k le show ?thesis unfolding set_ms_Rep by (auto intro!: exI[of _ k])
qed

lemma LitI_prefix:
  assumes "(q, r', g') \<in> set (ms (LitI l) (p, A @ B, g))" "q \<le> p + length A"
  shows "(q, drop (q - p) A, g') \<in> set (ms (LitI l) (p, A, g))"
proof -
  from LitI_elim[OF assms(1)] have k: "q = p + length l" "g' = g"
    "map asciiUpper (take (length l) (A @ B)) = map asciiUpper l" by auto
  from k(1) assms(2) have le: "length l \<le> length A" by simp
  with k(3) have "map asciiUpper (take (length l) A) = map asciiUpper l" by simp
  with k show ?thesis by (simp add: ms.simps)
qed

lemma Seq_prefix:
  assumes a: "\<And>q r' g' p A B g. (q, r', g') \<in> set (ms a (p, A @ B, g)) \<Longrightarrow> q \<le> p + length A
                \<Longrightarrow> (q, drop (q - p) A, g') \<in> set (ms a (p, A, g))"
    and b: "\<And>q r' g' p A B g. (q, r', g') \<in> set (ms b (p, A @ B, g)) \<Longrightarrow> q \<le> p + length A
                \<Longrightarrow> (q, drop (q - p) A, g') \<in> set (ms b (p, A, g))"
    and m: "(q, r', g') \<in> set (ms (Seq a b) (p, A @ B, g))" and le: "q \<le> p + length A"
  shows "(q, drop (q - p) A, g') \<in> set (ms (Seq a b) (p, A, g))"
proof -
  from Seq_elim[OF m] obtain q1 r1 g1 where 1: "(q1, r1, g1) \<in> set (ms a (p, A @ B, g))"
    and 2: "(q, r', g') \<in> set (ms b (q1, r1, g1))" by (metis prod_cases3)
  from ms_inv[OF 1] have i1: "p \<le> q1" "r1 = drop (q1 - p) (A @ B)" by auto
  from ms_inv[OF 2] have i2: "q1 \<le> q" by auto
  from i2 le have le1: "q1 \<le> p + length A" by simp
  from a[OF 1 le1] have 3: "(q1, drop (q1 - p) A, g1) \<in> set (ms a (p, A, g))" .
  have r1: "r1 = drop (q1 - p) A @ B" using i1 le1 by simp
  have "q \<le> q1 + length (drop (q1 - p) A)" using le i1 le1 by simp
  from b[OF 2[unfolded r1] this]
  have "(q, drop (q - q1) (drop (q1 - p) A), g') \<in> set (ms b (q1, drop (q1 - p) A, g1))" .
  moreover have "drop (q - q1) (drop (q1 - p) A) = drop (q - p) A" using i1 i2 by simp
  ultimately show ?thesis using Seq_intro[OF 3] by simp
qed

lemma Alt_prefix:
  assumes a: "\<And>q r' g' p A B g. (q, r', g') \<in> set (ms a (p, A @ B, g)) \<Longrightarrow> q \<le> p + length A
                \<Longrightarrow> (q, drop (q - p) A, g') \<in> set (ms a (p, A, g))"
    and b: "\<And>q r' g' p A B g. (q, r', g') \<in> set (ms b (p, A @ B, g)) \<Longrightarrow> q \<le> p + length A
                \<Longrightarrow> (q, drop (q - p) A, g') \<in> set (ms b (p, A, g))"
    and m: "(q, r', g') \<in> set (ms (Alt a b) (p, A @ B, g))" and le: "q \<le> p + length A"
  shows "(q, drop (q - p) A, g') \<in> set (ms (Alt a b) (p, A, g))"
  using Alt_elim[OF m] a[OF _ le] b[OF _ le] by (auto intro: Alt_intro1 Alt_intro2)

lemma Grp_prefix:
  assumes a: "\<And>q r' g' p A B g. (q, r', g') \<in> set (ms a (p, A @ B, g)) \<Longrightarrow> q \<le> p + length A
                \<Longrightarrow> (q, drop (q - p) A, g') \<in> set (ms a (p, A, g))"
    and m: "(q, r', g') \<in> set (ms (Grp n a) (p, A @ B, g))" and le: "q \<le> p + length A"
  shows "(q, drop (q - p) A, g') \<in> set (ms (Grp n a) (p, A, g))"
proof -
  from Grp_elim[OF m] obtain g0 where 1: "(q, r', g0) \<in> set (ms a (p, A @ B, g))"
    and 2: "g' = g0(n \<mapsto> (p, q))" by blast
  from Grp_intro[OF a[OF 1 le]] 2 show ?thesis by simp
qed

lemma dateRangePattern_prefix:
  assumes "(q, r', g') \<in> set (ms dateRangePattern (p, A @ B, g))" "q \<le> p + length A"
  shows "(q, drop (q - p) A, g') \<in> set (ms dateRangePattern (p, A, g))"
  using assms unfolding dateRangePattern_def monthYear_def dashSep_def
  by (elim Seq_prefix[rotated 2] Grp_prefix[rotated] Alt_prefix[rotated 2] Rep_prefix LitI_prefix)

lemma letter_not_dash: "isLetter c \<Longrightarrow> \<not> isDash c"
  by (auto simp: class_defs)

lemma digit_not_dash: "isDigit c \<Longrightarrow> \<not> isDash c"
  by (auto simp: class_defs)

lemma monthYear_abs:
  assumes "(q, r', g') \<in> set (ms monthYear (p, drop p s, g))"
  obtains k1 k2 where "3 \<le> k1" "1 \<le> k2" "q = p + k1 + k2 + 4" "q \<le> length s"
    "\<And>i. p \<le> i \<Longrightarrow> i < p + k1 \<Longrightarrow> isLetter (s ! i)"
    "\<And>i. p + k1 \<le> i \<Longrightarrow> i < p + k1 + k2 \<Longrightarrow> isWs (s ! i)"
    "\<And>i. p + k1 + k2 \<le> i \<Longrightarrow> i < q \<Longrightarrow> isDigit (s ! i)"
proof -
  from assms obtain k1 k2 where k: "3 \<le> k1" "1 \<le> k2" "k1 + k2 + 4 \<le> length (drop p s)"
    "list_all isLetter (take k1 (drop p s))" "list_all isWs (take k2 (drop k1 (drop p s)))"
    "list_all isDigit (take 4 (drop (k1 + k2) (drop p s)))" "q = p + k1 + k2 + 4"
    by (rule monthYear_elim)
  from k(1,3) have len: "p + k1 + k2 + 4 \<le> length s" by simp
  show ?thesis
  proof (rule that[of k1 k2])
    fix i assume "p \<le> i" "i < p + k1"
    with list_all_take_nth[OF k(4), of "i - p"] len show "isLetter (s ! i)" by simp
  next
    fix i assume "p + k1 \<le> i" "i < p + k1 + k2"
    with list_all_take_nth[OF k(5), of "i - (p + k1)"] len show "isWs (s ! i)"
      by (simp add: add.commute)
  next
    fix i assume "p + k1 + k2 \<le> i" "i < q"
    with list_all_take_nth[OF k(6), of "i - (p + k1 + k2)"] len k(7) show "isDigit (s ! i)"
      by (simp add: add.commute add.left_commute)
  qed (use k len in auto)
qed

lemma dashSep_abs:
  assumes "(q, r', g') \<in> set (ms dashSep (p, drop p s, g))"
  obtains qd where "p \<le> qd" "qd < q" "q \<le> length s" "isDash (s ! qd)"
    "\<And>i. p \<le> i \<Longrightarrow> i < qd \<Longrightarrow> isWs (s ! i)"
    "\<And>i. qd < i \<Longrightarrow> i < q \<Longrightarrow> isWs (s ! i)"
    "r' = drop q s" "g' = g"
proof -
  from assms obtain k3 k4 where k: "list_all isWs (take k3 (drop p s))" "k3 < length (drop p s)"
    "isDash (drop p s ! k3)" "list_all isWs (take k4 (drop (k3 + 1) (drop p s)))"
    "k3 + 1 + k4 \<le> length (drop p s)" "q = p + k3 + 1 + k4" "r' = drop (k3 + 1 + k4) (drop p s)"
    "g' = g"
    by (rule dashSep_elim)
  from k(2,5) have len: "p + k3 + 1 + k4 \<le> length s" "p + k3 < length s" by auto
  show ?thesis
  proof (rule that[of "p + k3"])
    show "isDash (s ! (p + k3))" using k(3) len by simp
  next
    fix i assume "p \<le> i" "i < p + k3"
    with list_all_take_nth[OF k(1), of "i - p"] len show "isWs (s ! i)" by simp
  next
    fix i assume "p + k3 < i" "i < q"
    with list_all_take_nth[OF k(4), of "i - (p + k3 + 1)"] len k(6) show "isWs (s ! i)"
      by (simp add: add.commute add.left_commute)
  next
    show "r' = drop q s" using k(6,7) by (simp add: add.commute add.left_commute)
  qed (use k len in auto)
qed

lemma LitI_abs:
  assumes "(q, r', g') \<in> set (ms (LitI v) (p, drop p s, g))" "list_all isLetter v"
  shows "q = p + length v \<and> (v \<noteq> [] \<longrightarrow> q \<le> length s)
     \<and> (\<forall>i. p \<le> i \<and> i < q \<longrightarrow> isLetter (s ! i))"
proof -
  from LitI_elim[OF assms(1)] have q: "q = p + length v"
    and e: "map asciiUpper (take (length v) (drop p s)) = map asciiUpper v" by auto
  have l: "length (take (length v) (drop p s)) = length v" using e by (metis length_map)
  then have len: "v \<noteq> [] \<longrightarrow> p + length v \<le> length s" by (cases v) auto
  have "isLetter (s ! i)" if "p \<le> i" "i < q" for i
  proof -
    from that q have j: "i - p < length v" by simp
    then have ne: "v \<noteq> []" by auto
    have "asciiUpper (take (length v) (drop p s) ! (i - p)) = asciiUpper (v ! (i - p))"
      using e j l by (metis nth_map)
    moreover have "isLetter (v ! (i - p))" using assms(2) j by (simp add: list_all_length)
    ultimately have "isLetter (take (length v) (drop p s) ! (i - p))"
      by (rule upper_eq_letter)
    then show ?thesis using j that len ne by simp
  qed
  with q len show ?thesis by simp
qed

lemma nth_mid:
  "length A \<le> i \<Longrightarrow> i < length A + length M \<Longrightarrow> (A @ M @ B) ! i = M ! (i - length A)"
  by (auto simp: nth_append)

lemma first_range_sentinel:
  assumes decomp: "text = pre @ mon @ ws1 @ yr @ ws2 @ [d] @ ws3 @ tok @ post"
    and first: "\<not> rx_test dateRangePattern (pre @ mon @ ws1 @ yr)"
    and mon: "list_all isLetter mon" "3 \<le> length mon" "length mon \<le> 9"
    and ws1: "list_all isWs ws1" "ws1 \<noteq> []"
    and yr: "list_all isDigit yr" "length yr = 4"
    and sep: "list_all isWs ws2" "isDash d" "list_all isWs ws3"
    and tok: "map asciiLower tok \<in> {js ''present'', js ''current''}"
  shows "endDate (extractDatesFromText E text) = js ''Present''"
proof -
  define W where "W = Alt monthYear (Alt (LitI (js ''Present'')) (LitI (js ''Current'')))"
  have pat: "dateRangePattern = Seq (Grp 1 monthYear) (Seq dashSep (Grp 2 W))"
    by (simp add: dateRangePattern_def W_def)
  define R where "R = ws3 @ tok @ post"
  from tok obtain w where w: "w \<in> {js ''Present'', js ''Current''}"
    "map asciiUpper tok = map asciiUpper w"
    by (rule sentinel1_word)
  \<comment> \<open>where the pieces of the range stand in the text\<close>
  define b0 where "b0 = length pre"
  define e1 where "e1 = b0 + length mon"
  define ny where "ny = e1 + length ws1"
  define pd where "pd = ny + 4 + length ws2"
  define Ptxt where "Ptxt = pre @ mon @ ws1 @ yr"
  have tP: "text = Ptxt @ ws2 @ [d] @ R" by (simp add: decomp Ptxt_def R_def)
  have lP: "length Ptxt = ny + 4" using yr(2) by (simp add: Ptxt_def ny_def e1_def b0_def)
  have F1: "isLetter (text ! i)" if "b0 \<le> i" "i < e1" for i
  proof -
    have "text ! i = mon ! (i - b0)"
      using that unfolding decomp b0_def e1_def by (intro nth_mid) auto
    moreover have "i - b0 < length mon" using that by (simp add: e1_def)
    ultimately show ?thesis using mon(1) by (simp add: list_all_length)
  qed
  have F2: "isWs (text ! e1)"
  proof -
    have "((pre @ mon) @ ws1 @ (yr @ ws2 @ [d] @ ws3 @ tok @ post)) ! e1 = ws1 ! (e1 - length (pre @ mon))"
      using ws1(2) by (intro nth_mid) (auto simp: e1_def b0_def)
    then have "text ! e1 = ws1 ! 0" by (simp add: decomp e1_def b0_def)
    then show ?thesis using ws1 by (simp add: list_all_length)
  qed
  have F3: "isDigit (text ! ny)"
  proof -
    have "((pre @ mon @ ws1) @ yr @ (ws2 @ [d] @ ws3 @ tok @ post)) ! ny
        = yr ! (ny - length (pre @ mon @ ws1))"
      using yr(2) by (intro nth_mid) (auto simp: ny_def e1_def b0_def)
    then have "text ! ny = yr ! 0" by (simp add: decomp ny_def e1_def b0_def)
    then show ?thesis using yr by (simp add: list_all_length)
  qed
  have F4: "\<not> isDash (text ! i)" if "b0 \<le> i" "i < pd" for i
  proof -
    have "(pre @ (mon @ ws1 @ yr @ ws2) @ ([d] @ ws3 @ tok @ post)) ! i
        = (mon @ ws1 @ yr @ ws2) ! (i - length pre)"
      using that yr(2) by (intro nth_mid) (auto simp: pd_def ny_def e1_def b0_def)
    then have e: "text ! i = (mon @ ws1 @ yr @ ws2) ! (i - b0)" by (simp add: decomp b0_def)
    have "i - b0 < length (mon @ ws1 @ yr @ ws2)"
      using that yr(2) by (simp add: pd_def ny_def e1_def)
    then have "(mon @ ws1 @ yr @ ws2) ! (i - b0) \<in> set (mon @ ws1 @ yr @ ws2)" by (rule nth_mem)
    then have "isLetter (text ! i) \<or> isWs (text ! i) \<or> isDigit (text ! i)"
      using mon(1) ws1(1) yr(1) sep(1) unfolding e by (auto simp: list_all_iff)
    then show ?thesis using letter_not_dash ws_not_dash digit_not_dash by blast
  qed
  have dP: "drop (pd + 1) text = R"
  proof -
    have "pd + 1 = length (Ptxt @ ws2 @ [d])" by (simp add: lP pd_def)
    then show ?thesis unfolding tP by (metis append.assoc append_eq_conv_conj)
  qed
  have F5: "isDash (text ! pd)"
  proof -
    have "((Ptxt @ ws2) @ [d] @ R) ! pd = [d] ! (pd - length (Ptxt @ ws2))"
      by (intro nth_mid) (auto simp: lP pd_def)
    then have "text ! pd = d" by (simp add: tP lP pd_def)
    then show ?thesis using sep(2) by simp
  qed
  \<comment> \<open>the pattern matches where the range stands\<close>
  define g0 :: caps where "g0 = Map.empty"
  have m1: "(b0 + length mon + length ws1 + 4, ws2 @ [d] @ ws3 @ tok @ post, g0)
      \<in> set (ms monthYear (b0, mon @ ws1 @ yr @ ws2 @ [d] @ ws3 @ tok @ post, g0))"
    using mon ws1 yr by (intro monthYear_intro) auto
  define p1 where "p1 = b0 + length mon + length ws1 + 4"
  define g1 where "g1 = g0(1 \<mapsto> (b0, p1))"
  have m1': "(p1, ws2 @ [d] @ ws3 @ tok @ post, g1)
      \<in> set (ms (Grp 1 monthYear) (b0, mon @ ws1 @ yr @ ws2 @ [d] @ ws3 @ tok @ post, g0))"
    unfolding g1_def p1_def by (rule Grp_intro[OF m1])
  have m2: "(p1 + length ws2 + 1 + length ws3, tok @ post, g1)
      \<in> set (ms dashSep (p1, ws2 @ [d] @ ws3 @ tok @ post, g1))"
    using sep by (intro dashSep_intro) auto
  define p2 where "p2 = p1 + length ws2 + 1 + length ws3"
  have m3: "(p2 + length w, post, g1) \<in> set (ms (LitI w) (p2, tok @ post, g1))"
    by (rule LitI_intro[OF w(2)])
  have m3': "(p2 + length w, post, g1) \<in> set (ms W (p2, tok @ post, g1))"
    using w(1) m3 unfolding W_def by (auto intro: Alt_intro1 Alt_intro2)
  have m3'': "(p2 + length w, post, g1(2 \<mapsto> (p2, p2 + length w)))
      \<in> set (ms (Grp 2 W) (p2, tok @ post, g1))"
    by (rule Grp_intro[OF m3'])
  have "(p2 + length w, post, g1(2 \<mapsto> (p2, p2 + length w)))
      \<in> set (ms dateRangePattern (b0, mon @ ws1 @ yr @ ws2 @ [d] @ ws3 @ tok @ post, g0))"
    unfolding pat using Seq_intro[OF m1' Seq_intro[OF m2[folded p2_def] m3'']] .
  then have "ms dateRangePattern (0 + length pre, mon @ ws1 @ yr @ ws2 @ [d] @ ws3 @ tok @ post,
      Map.empty) \<noteq> []"
    unfolding b0_def g0_def by auto
  from rx_from_leftmost[OF this] obtain m k q rs g tl where
    m: "rx_match dateRangePattern text = Some m" and k: "k \<le> b0"
    and st: "ms dateRangePattern (k, drop k text, Map.empty) = (q, rs, g) # tl"
    and caps: "m_caps m = g"
    unfolding rx_match_def decomp b0_def by auto
  \<comment> \<open>the match that is found: its first group, its dash, its second group\<close>
  have "(q, rs, g) \<in> set (ms (Seq (Grp 1 monthYear) (Seq dashSep (Grp 2 W))) (k, drop k text, Map.empty))"
    using st unfolding pat by simp
  from Seq_elim[OF this] obtain a1 r1 h1 where
    s1: "(a1, r1, h1) \<in> set (ms (Grp 1 monthYear) (k, drop k text, Map.empty))"
    and s2: "(q, rs, g) \<in> set (ms (Seq dashSep (Grp 2 W)) (a1, r1, h1))"
    by (metis prod_cases3)
  from Grp_elim[OF s1] obtain h0 where s1': "(a1, r1, h0) \<in> set (ms monthYear (k, drop k text, Map.empty))"
    by blast
  from ms_inv[OF s1'] have r1: "r1 = drop a1 text" by auto
  from s1' obtain k1 k2 where my0: "3 \<le> k1" "1 \<le> k2" and my: "a1 = k + k1 + k2 + 4"
    "a1 \<le> length text"
    "\<And>i. k \<le> i \<Longrightarrow> i < k + k1 \<Longrightarrow> isLetter (text ! i)"
    "\<And>i. k + k1 \<le> i \<Longrightarrow> i < k + k1 + k2 \<Longrightarrow> isWs (text ! i)"
    "\<And>i. k + k1 + k2 \<le> i \<Longrightarrow> i < a1 \<Longrightarrow> isDigit (text ! i)"
    by (rule monthYear_abs) (rule that)
  note my = my(1,3,4,5)
  from Seq_elim[OF s2] obtain a ra h2 where
    s3: "(a, ra, h2) \<in> set (ms dashSep (a1, drop a1 text, h1))"
    and s4: "(q, rs, g) \<in> set (ms (Grp 2 W) (a, ra, h2))"
    unfolding r1 by (metis prod_cases3)
  from s3 obtain qd where ds: "a1 \<le> qd" "qd < a" "a \<le> length text" "isDash (text ! qd)"
    "\<And>i. a1 \<le> i \<Longrightarrow> i < qd \<Longrightarrow> isWs (text ! i)"
    "\<And>i. qd < i \<Longrightarrow> i < a \<Longrightarrow> isWs (text ! i)"
    "ra = drop a text" "h2 = h1"
    by (rule dashSep_abs) (rule that)
  have nodash: "\<not> isDash (text ! i)" if "k \<le> i" "i < qd" for i
  proof -
    consider "i < k + k1" | "k + k1 \<le> i" "i < k + k1 + k2" | "k + k1 + k2 \<le> i" "i < a1" | "a1 \<le> i"
      by linarith
    then show ?thesis
    proof cases
      case 1
      with my(2)[of i] that letter_not_dash show ?thesis by blast
    next
      case 2
      with my(3)[of i] ws_not_dash show ?thesis by blast
    next
      case 3
      with my(4)[of i] digit_not_dash show ?thesis by blast
    next
      case 4
      with ds(5)[of i] that ws_not_dash show ?thesis by blast
    qed
  qed
  have "b0 \<le> pd" by (simp add: pd_def ny_def e1_def)
  have A: "qd \<le> pd" using nodash[of pd] F5 k \<open>b0 \<le> pd\<close> by (meson le_trans not_le)
  have B: "qd < b0 \<or> qd = pd" using F4[of qd] ds(4) A by (meson le_neq_implies_less not_le)
  from Grp_elim[OF s4] obtain gw where
    alt: "(q, rs, gw) \<in> set (ms W (a, drop a text, h2))" and g: "g = gw(2 \<mapsto> (a, q))"
    unfolding ds(7) by blast
  from B show ?thesis
  proof
    assume qd: "qd = pd"
    define k4 where "k4 = a - (pd + 1)"
    have a: "a = pd + 1 + k4" using ds(2) qd by (simp add: k4_def)
    have ra: "drop a text = drop k4 R" unfolding a using dP by (metis add.commute drop_drop)
    have k4le: "k4 \<le> length R" using ds(3) a dP by (metis add_le_imp_le_left drop_all length_drop
          le_add_diff_inverse linorder_le_cases diff_is_0_eq' le_diff_conv add.commute)
    have k4ws: "list_all isWs (take k4 R)"
    proof -
      have "isWs (R ! i)" if "i < k4" for i
      proof -
        have "R ! i = text ! (pd + 1 + i)" using that k4le unfolding dP[symmetric] by simp
        moreover have "isWs (text ! (pd + 1 + i))" using ds(6)[of "pd + 1 + i"] that a qd by simp
        ultimately show ?thesis by simp
      qed
      then show ?thesis using k4le by (simp add: list_all_length)
    qed
    have "(q, rs, g) \<in> set (ms (Grp 2 (Alt monthYear (Alt (LitI (js ''Present''))
                 (LitI (js ''Current''))))) (a, drop k4 (ws3 @ tok @ post), h2))"
      using s4 unfolding ds(7) ra R_def W_def .
    from sentinel1_group[OF this k4le[unfolded R_def] k4ws[unfolded R_def] sep(3) tok, of E]
    have r: "k4 = length ws3" "g 2 = Some (a, q)"
      "isSentinel1 E (Some (take (q - a) (tok @ post)))" by auto
    have "drop a text = tok @ post" unfolding ra r(1) R_def by simp
    then have "grp text m 2 = Some (take (q - a) (tok @ post))"
      using r(2) caps by (simp add: grp_def slice_def)
    with r(3) have "isSentinel1 E (grp text m 2)" by simp
    then show ?thesis
      by (simp add: extractDatesFromText_def m Let_def endString_def)
  next
    assume qd: "qd < b0"
    \<comment> \<open>an earlier range: it ends before the dash of this one, against the assumption\<close>
    have "mon \<noteq> []" using mon(2) by auto
    then have b0l: "isLetter (text ! b0)" using F1[of b0] by (simp add: e1_def)
    have ab: "a \<le> b0"
    proof (rule ccontr)
      assume "\<not> a \<le> b0"
      with ds(6)[of b0] qd have "isWs (text ! b0)" by simp
      with b0l letter_not_ws show False by blast
    qed
    have "b0 \<le> e1" "e1 \<le> ny" "b0 \<le> ny" by (simp_all add: e1_def ny_def)
    from Alt_elim[OF alt[unfolded W_def]] consider
      (my) "(q, rs, gw) \<in> set (ms monthYear (a, drop a text, h2))"
      | (lit) v where "v \<in> {js ''Present'', js ''Current''}"
          "(q, rs, gw) \<in> set (ms (LitI v) (a, drop a text, h2))"
      using Alt_elim by blast
    then have qle: "q \<le> ny + 4"
    proof cases
      case my
      then obtain j1 j2 where j0: "3 \<le> j1" "1 \<le> j2" and j: "q = a + j1 + j2 + 4"
        "q \<le> length text"
        "\<And>i. a \<le> i \<Longrightarrow> i < a + j1 \<Longrightarrow> isLetter (text ! i)"
        "\<And>i. a + j1 \<le> i \<Longrightarrow> i < a + j1 + j2 \<Longrightarrow> isWs (text ! i)"
        "\<And>i. a + j1 + j2 \<le> i \<Longrightarrow> i < q \<Longrightarrow> isDigit (text ! i)"
        by (rule monthYear_abs) (rule that)
      note j = j(1,3,4)
      have "a + j1 + j2 \<le> ny"
      proof (rule ccontr)
        assume n: "\<not> a + j1 + j2 \<le> ny"
        have "a \<le> ny" using ab \<open>b0 \<le> ny\<close> by simp
        then have "isLetter (text ! ny) \<or> isWs (text ! ny)"
          using j(2)[of ny] j(3)[of ny] n by (cases "ny < a + j1") auto
        with F3 letter_not_digit ws_not_digit show False by blast
      qed
      with j(1) show ?thesis by simp
    next
      case lit
      have v: "list_all isLetter v" "length v = 7"
        using lit(1) by (auto simp: js_def isLetter_def isUpperAZ_def isLowerAZ_def)
      from LitI_abs[OF lit(2) v(1)] have q: "q = a + 7"
        and l: "\<And>i. a \<le> i \<Longrightarrow> i < q \<Longrightarrow> isLetter (text ! i)" using v(2) by auto
      have "q \<le> e1"
      proof (rule ccontr)
        assume "\<not> q \<le> e1"
        with l[of e1] ab \<open>b0 \<le> e1\<close> have "isLetter (text ! e1)" by simp
        with F2 letter_not_ws show False by blast
      qed
      with \<open>e1 \<le> ny\<close> show ?thesis by simp
    qed
    have kP: "k \<le> length Ptxt" using k by (simp add: Ptxt_def b0_def)
    have dk: "drop k text = drop k Ptxt @ (ws2 @ [d] @ R)" using kP by (simp add: tP)
    have "(q, rs, g) \<in> set (ms dateRangePattern (k, drop k Ptxt @ (ws2 @ [d] @ R), Map.empty))"
      using st unfolding dk by simp
    moreover have "q \<le> k + length (drop k Ptxt)" using qle kP lP by simp
    ultimately have "(q, drop (q - k) (drop k Ptxt), g) \<in> set (ms dateRangePattern (k, drop k Ptxt, Map.empty))"
      by (rule dateRangePattern_prefix)
    then have "ms dateRangePattern (k, drop k Ptxt, Map.empty) \<noteq> []" by auto
    with kP have "rx_test dateRangePattern Ptxt" unfolding rx_test_iff by blast
    with first show ?thesis by (simp add: Ptxt_def)
  qed
qed


section \<open>The claims\<close>

text \<open>
  C2 (as amended).  A fragment that contains a range \<open>Month Year - token\<close>, the token being
  \<open>present\<close>, \<open>current\<close> or \<open>ongoing\<close> in any letter case, gets \<open>endDate = "Present"\<close> from
  \<open>extractDateRange\<close>, wherever the range stands.  \<open>extractDatesFromText\<close> reads the first
  range that its pattern finds: it returns \<open>"Present"\<close> when the token is \<open>present\<close> or
  \<open>current\<close> and the text up to the year of the range holds no date range.
\<close>

theorem date_sentinel:
  assumes "text = pre @ mon @ ws1 @ yr @ ws2 @ [d] @ ws3 @ tok @ post"
    and "list_all isLetter mon" "3 \<le> length mon" "length mon \<le> 9"
    and "list_all isWs ws1" "ws1 \<noteq> []"
    and "list_all isDigit yr" "length yr = 4"
    and "list_all isWs ws2" "isDash d" "list_all isWs ws3"
    and "map asciiLower tok \<in> {js ''present'', js ''current'', js ''ongoing''}"
  shows "endDate (extractDateRange E text) = js ''Present''
    \<and> (\<not> rx_test dateRangePattern (pre @ mon @ ws1 @ yr) \<and> map asciiLower tok \<noteq> js ''ongoing''
        \<longrightarrow> endDate (extractDatesFromText E text) = js ''Present'')"
proof (intro conjI impI)
  show "endDate (extractDateRange E text) = js ''Present''"
    using assms by (rule extractDateRange_sentinel)
next
  assume a: "\<not> rx_test dateRangePattern (pre @ mon @ ws1 @ yr) \<and> map asciiLower tok \<noteq> js ''ongoing''"
  with assms(12) have "map asciiLower tok \<in> {js ''present'', js ''current''}" by auto
  with a assms show "endDate (extractDatesFromText E text) = js ''Present''"
    by (intro first_range_sentinel[of "text" pre mon ws1 yr ws2 d ws3 tok post]) auto
qed

text \<open>An instance of C2: \<open>3M Jan 2020 - PRESENT\<close>, with an en dash.\<close>

theorem date_sentinel_witness:
  "list_all isLetter (js ''Jan'') \<and> list_all isDigit (js ''2020'') \<and> isDash 8211
   \<and> map asciiLower (js ''PRESENT'') = js ''present''
   \<and> \<not> rx_test dateRangePattern (js ''3M Jan 2020'')
   \<and> endDate (extractDateRange sampleEnv (js ''3M Jan 2020 '' @ [8211] @ js '' PRESENT''))
        = js ''Present''
   \<and> endDate (extractDatesFromText sampleEnv (js ''3M Jan 2020 '' @ [8211] @ js '' PRESENT''))
        = js ''Present''"
proof -
  have h: "\<not> rx_test dateRangePattern (js ''3M '' @ js ''Jan'' @ js '' '' @ js ''2020'')"
    by (simp add: date_defs rx_eval class_defs)
  have e: "js ''3M Jan 2020'' = js ''3M '' @ js ''Jan'' @ js '' '' @ js ''2020''"
    by (simp add: js_def)
  show ?thesis
    using date_sentinel[of "js ''3M Jan 2020 '' @ [8211] @ js '' PRESENT''" "js ''3M ''" "js ''Jan''"
      "js '' ''" "js ''2020''" "js '' ''" 8211 "js '' ''" "js ''PRESENT''" "[]" sampleEnv] h
    unfolding e by (simp add: js_def class_defs)
qed

text \<open>
  C2 as stated fails for \<open>extractDatesFromText\<close>, on lines that \<open>parseWorkExperience\<close>
  passes to it.  In the first line the range that ends with \<open>Present\<close> comes second, and
  the end date is the one of the range before it.  In the second line the first range
  ends with \<open>Ongoing\<close>, a word the pattern does not have, and the end date is the one of
  the range after it.
\<close>

theorem date_sentinel_counterexample:
  "rx_test dateRangePattern (js ''Jan 2019 - Jan 2020, Feb 2021 - Present'')
   \<and> endDate (extractDatesFromText sampleEnv (js ''Jan 2019 - Jan 2020, Feb 2021 - Present''))
        = js ''2020-01-01''
   \<and> rx_test dateRangePattern (js ''Jan 2020 - Ongoing, Jan 2019 - Jan 2020'')
   \<and> endDate (extractDatesFromText sampleEnv (js ''Jan 2020 - Ongoing, Jan 2019 - Jan 2020''))
        = js ''2020-01-01''
   \<and> js ''2020-01-01'' \<noteq> js ''Present''
   \<and> map expEnd (parseWorkExperience sampleEnv [js ''Jan 2019 - Jan 2020, Feb 2021 - Present''])
        = [js ''2020-01-01'']
   \<and> map expEnd (parseWorkExperience sampleEnv [js ''Jan 2020 - Ongoing, Jan 2019 - Jan 2020''])
        = [js ''2020-01-01'']"
proof -
  let ?A = "js ''Jan 2019 - Jan 2020, Feb 2021 - Present''"
  let ?B = "js ''Jan 2020 - Ongoing, Jan 2019 - Jan 2020''"
  have a1: "rx_test dateRangePattern ?A" by (simp add: date_defs rx_eval class_defs)
  have a2: "endDate (extractDatesFromText sampleEnv ?A) = js ''2020-01-01''"
    by (simp add: date_defs rx_eval class_defs sampleEnv_def toLowerCase_def startsWith_def)
  have b1: "rx_test dateRangePattern ?B" by (simp add: date_defs rx_eval class_defs)
  have b2: "endDate (extractDatesFromText sampleEnv ?B) = js ''2020-01-01''"
    by (simp add: date_defs rx_eval class_defs sampleEnv_def toLowerCase_def startsWith_def)
  have c: "js ''2020-01-01'' \<noteq> js ''Present''" by (simp add: js_def)
  have ta: "trim ?A = ?A" by (simp add: trim_def js_def class_defs)
  have tb: "trim ?B = ?B" by (simp add: trim_def js_def class_defs)
  have a3: "map expEnd (parseWorkExperience sampleEnv [?A]) = [js ''2020-01-01'']"
    by (simp add: parseWorkExperience_def workStep_def openEntry_def pushCurrent_def Let_def ta a1 a2)
  have b3: "map expEnd (parseWorkExperience sampleEnv [?B]) = [js ''2020-01-01'']"
    by (simp add: parseWorkExperience_def workStep_def openEntry_def pushCurrent_def Let_def tb b1 b2)
  show ?thesis by (intro conjI a1 a2 b1 b2 c a3 b3)
qed




text \<open>
  C10.  \<open>parseWorkExperience\<close> returns one entry for each line that holds a date range, in
  order, and the company of the entry is the trimmed line just before that line,
  whatever that line is; for a date range on the first line the company is the empty
  string.
\<close>

theorem company_from_preceding_line:
  "map company (parseWorkExperience E lines) =
     map (\<lambda>i. if i > 0 then trim (lines ! (i - 1)) else [])
       (filter (\<lambda>i. rx_test dateRangePattern (trim (lines ! i))) [0 ..< length lines])"
  using company_fold[of E lines "\<lparr>experiences = [], currentExp = None, collectingBullets = False\<rparr>"
      "length lines"]
  by (simp add: parseWorkExperience_def pushCurrent_def)

text \<open>
  C4 fails on the code.  In both detectors the \<open>break\<close> leaves the loop over the keywords of
  one section type only, and the loop over the types goes on: the line
  \<open>Project Experience\<close> starts a section of type \<open>experience\<close> (it contains the keyword
  \<open>experience\<close>) and a section of type \<open>projects\<close> (it is the keyword \<open>project experience\<close>),
  whatever the fuzzy scores are.
\<close>

theorem one_line_two_sections:
  "{(''experience'', 0), (''projects'', 0)}
     \<subseteq> set (map (\<lambda>s. (stype s, startIndex s)) (detectSections E [js ''Project Experience'']))
   \<and> {(''experience'', 0), (''projects'', 0)}
     \<subseteq> set (map (\<lambda>s. (stype s, startIndex s)) (detectSectionBoundaries E [js ''Project Experience'']))"
proof
  have "set (map (\<lambda>s. (stype s, startIndex s)) (detectSections E [js ''Project Experience'']))
      = (\<lambda>s. (ptype s, pstart s)) ` set (lineSections2 E [js ''Project Experience''] 0)"
    by (simp add: detectSections_def addEndIndices_start)
  with double_label2[of E]
  show "{(''experience'', 0), (''projects'', 0)}
     \<subseteq> set (map (\<lambda>s. (stype s, startIndex s)) (detectSections E [js ''Project Experience'']))"
    by force
next
  have "set (map (\<lambda>s. (stype s, startIndex s)) (detectSectionBoundaries E [js ''Project Experience'']))
      = (\<lambda>s. (ptype s, pstart s)) ` set (lineSections1 E [js ''Project Experience''] 0)"
    by (simp add: detectSectionBoundaries_def addEndIndices_start)
  with double_label1[of E]
  show "{(''experience'', 0), (''projects'', 0)}
     \<subseteq> set (map (\<lambda>s. (stype s, startIndex s)) (detectSectionBoundaries E [js ''Project Experience'']))"
    by force
qed

text \<open>
  C1 (as amended).  The record that \<open>parseResume\<close> of the first pipeline returns has no
  field whose value is an empty list or a string that is empty once trimmed: its
  clean-up loop deletes them.  The two parse functions of resumeParser2.js have no such
  loop: for every text they return a record of all fourteen keys, in which \<open>address\<close> and
  \<open>summary\<close> are the empty string and \<open>languages\<close> and \<open>hobbies\<close> the empty list.
\<close>

theorem sparse_record:
  "list_all (\<lambda>kv. \<not> emptyField (snd kv)
       \<and> snd kv \<notin> {Str [], Strs [], Educations [], Experiences [], Projects [], Certifications []})
     (parseResume E text)
   \<and> (\<exists>r. parseResume2 E text = Inr r \<and> length r = 14
        \<and> field r ''address'' = Some (Str []) \<and> field r ''summary'' = Some (Str [])
        \<and> field r ''languages'' = Some (Strs []) \<and> field r ''hobbies'' = Some (Strs []))
   \<and> (\<exists>r. parseResumeSecondaryApproach E text = Inr r \<and> length r = 14
        \<and> field r ''address'' = Some (Str []) \<and> field r ''summary'' = Some (Str [])
        \<and> field r ''languages'' = Some (Strs []) \<and> field r ''hobbies'' = Some (Strs []))"
proof (intro conjI)
  show "list_all (\<lambda>kv. \<not> emptyField (snd kv)
       \<and> snd kv \<notin> {Str [], Strs [], Educations [], Experiences [], Projects [], Certifications []})
     (parseResume E text)"
    unfolding parseResume_def Let_def by (rule cleanUp_sparse)
next
  from parseResume2_record[of E "text"] obtain n c ed we sk pr ce where
    r: "parseResume2 E text = Inr (record2 n c ed we sk pr ce)" by blast
  have len: "length (record2 n c ed we sk pr ce) = 14" by (simp add: record2_def)
  show "\<exists>r. parseResume2 E text = Inr r \<and> length r = 14
        \<and> field r ''address'' = Some (Str []) \<and> field r ''summary'' = Some (Str [])
        \<and> field r ''languages'' = Some (Strs []) \<and> field r ''hobbies'' = Some (Strs [])"
    unfolding r by (simp add: field_record2 len)
next
  from secondary_record[of E "text"] obtain n c ed we sk pr ce where
    r: "parseResumeSecondaryApproach E text = Inr (record2 n c ed we sk pr ce)" by blast
  have len: "length (record2 n c ed we sk pr ce) = 14" by (simp add: record2_def)
  show "\<exists>r. parseResumeSecondaryApproach E text = Inr r \<and> length r = 14
        \<and> field r ''address'' = Some (Str []) \<and> field r ''summary'' = Some (Str [])
        \<and> field r ''languages'' = Some (Strs []) \<and> field r ''hobbies'' = Some (Strs [])"
    unfolding r by (simp add: field_record2 len)
qed

text \<open>C1 as stated fails: both strategies of resumeParser2.js return empty fields.\<close>

theorem sparse_record_counterexample:
  "(case parseResume2 sampleEnv (js ''John Smith'') of Inl e \<Rightarrow> None | Inr r \<Rightarrow> field r ''address'')
     = Some (Str [])
   \<and> (case parseResumeSecondaryApproach sampleEnv (js ''John Smith'') of
        Inl e \<Rightarrow> None | Inr r \<Rightarrow> field r ''hobbies'') = Some (Strs [])"
proof -
  from parseResume2_record[of sampleEnv "js ''John Smith''"] obtain n c ed we sk pr ce where
    1: "parseResume2 sampleEnv (js ''John Smith'') = Inr (record2 n c ed we sk pr ce)" by blast
  from secondary_record[of sampleEnv "js ''John Smith''"] obtain n' c' ed' we' sk' pr' ce' where
    2: "parseResumeSecondaryApproach sampleEnv (js ''John Smith'') = Inr (record2 n' c' ed' we' sk' pr' ce')"
    by blast
  show ?thesis by (simp add: 1 2 field_record2)
qed

text \<open>
  C8 fails on the code.  \<open>parseResumeSecondaryApproach\<close> splits the text of the skills
  section at the colon too and keeps every piece, so the label \<open>Languages\<close> is returned as
  a skill.  The primary \<open>parseResume\<close> of the same file, and \<open>parseSkills\<close> of the first
  pipeline, drop the label.
\<close>

theorem label_becomes_skill:
  "(case parseResumeSecondaryApproach E (js ''Skills'' @ [10] @ js ''Languages: C++, Python, Go'') of
      Inl e \<Rightarrow> None | Inr r \<Rightarrow> field r ''skills'')
     = Some (Strs [js ''Languages'', js ''C++'', js ''Python'', js ''Go''])
   \<and> skillsPrimary [js ''Languages: C++, Python, Go''] = [js ''C++'', js ''Python'', js ''Go'']
   \<and> parseSkills [js ''Languages: C++, Python, Go''] = [js ''C++'', js ''Python'', js ''Go'']"
proof (intro conjI)
  let ?t = "js ''Skills'' @ [10] @ js ''Languages: C++, Python, Go''"
  have raw: "map_option rawText (extractRawSections E ?t ''skills'')
      = Some (js ''Languages: C++, Python, Go'')"
    by (simp add: extractRawSections_def sectionBoundaries_def commonSections_def split_eval
        slice_def js_def class_defs toLowerCase_def startsWith_def)
  then obtain r where r: "extractRawSections E ?t ''skills'' = Some r"
    "rawText r = js ''Languages: C++, Python, Go''" by auto
  have sk: "uniq (skillsSecondary (js ''Languages: C++, Python, Go''))
      = [js ''Languages'', js ''C++'', js ''Python'', js ''Go'']"
    by (simp add: skill_defs split_eval js_def class_defs)
  from secondary_record[of E ?t] obtain n c ed we sk pr ce where
    p: "parseResumeSecondaryApproach E ?t = Inr (record2 n c ed we sk pr ce)"
    and s: "sk = (case extractRawSections E ?t ''skills'' of None \<Rightarrow> []
              | Some r \<Rightarrow> skillsSecondary (rawText r))"
    by blast
  show "(case parseResumeSecondaryApproach E ?t of Inl e \<Rightarrow> None | Inr r \<Rightarrow> field r ''skills'')
     = Some (Strs [js ''Languages'', js ''C++'', js ''Python'', js ''Go''])"
    unfolding p s r(1) using sk r(2) by (simp add: field_record2)
  show "skillsPrimary [js ''Languages: C++, Python, Go''] = [js ''C++'', js ''Python'', js ''Go'']"
    by (simp add: skill_defs split_eval js_def class_defs)
  show "parseSkills [js ''Languages: C++, Python, Go''] = [js ''C++'', js ''Python'', js ''Go'']"
    by (simp add: skill_defs split_eval rx_eval class_defs)
qed

text \<open>
  C9.  For every text, both parse functions of resumeParser2.js return a record whose
  \<open>skills\<close> are strings of more than one and fewer than fifty code units once trimmed; none
  has length one.
\<close>

theorem skills_token_lengths:
  "(\<exists>r xs. parseResume2 E text = Inr r \<and> field r ''skills'' = Some (Strs xs)
       \<and> list_all (\<lambda>s. 1 < length (trim s) \<and> length (trim s) < 50 \<and> length s \<noteq> 1) xs)
   \<and> (\<exists>r xs. parseResumeSecondaryApproach E text = Inr r \<and> field r ''skills'' = Some (Strs xs)
       \<and> list_all (\<lambda>s. 1 < length (trim s) \<and> length (trim s) < 50 \<and> length s \<noteq> 1) xs)"
proof
  from parseResume2_record[of E "text"] obtain n c ed we sk pr ce where
    r: "parseResume2 E text = Inr (record2 n c ed we sk pr ce)"
    and sk: "sk = skillsPrimary (getSectionLines (detectSections E (normalizeLines text)) (normalizeLines text) ''skills'')"
    by blast
  have "list_all (\<lambda>s. 1 < length (trim s) \<and> length (trim s) < 50 \<and> length s \<noteq> 1) (uniq sk)"
    unfolding list_all_iff set_uniq sk using skillsPrimary_lengths by fastforce
  then show "\<exists>r xs. parseResume2 E text = Inr r \<and> field r ''skills'' = Some (Strs xs)
       \<and> list_all (\<lambda>s. 1 < length (trim s) \<and> length (trim s) < 50 \<and> length s \<noteq> 1) xs"
    unfolding r by (simp add: field_record2)
next
  from secondary_record[of E "text"] obtain n c ed we sk pr ce where
    r: "parseResumeSecondaryApproach E text = Inr (record2 n c ed we sk pr ce)"
    and sk: "sk = (case extractRawSections E text ''skills'' of None \<Rightarrow> []
              | Some r \<Rightarrow> skillsSecondary (rawText r))"
    by blast
  have "list_all (\<lambda>s. 1 < length (trim s) \<and> length (trim s) < 50 \<and> length s \<noteq> 1) (uniq sk)"
    unfolding list_all_iff set_uniq sk using skillsSecondary_lengths
    by (fastforce split: option.splits)
  then show "\<exists>r xs. parseResumeSecondaryApproach E text = Inr r
       \<and> field r ''skills'' = Some (Strs xs)
       \<and> list_all (\<lambda>s. 1 < length (trim s) \<and> length (trim s) < 50 \<and> length s \<noteq> 1) xs"
    unfolding r by (simp add: field_record2)
qed

text \<open>
  C6 fails on the code.  \<open>extractSection\<close> ends a section only at a line that matches a
  keyword of the section's own list (or at an empty line, and the lines it is given have
  none), so the content of the experience section runs over the header \<open>Education\<close>, which
  the same function detects as the header of the education section.
\<close>

theorem section_content_has_header:
  "extractSection sampleEnv [js ''Experience'', js ''Acme Corp'', js ''Education'', js ''MIT'']
      (map js [''experience'', ''work'', ''employment''])
     = [js ''Acme Corp'', js ''Education'', js ''MIT'']
   \<and> extractSection sampleEnv [js ''Experience'', js ''Acme Corp'', js ''Education'', js ''MIT'']
      (map js [''education'', ''academics'']) = [js ''MIT'']"
  by (simp add: sec_defs rx_eval class_defs sampleEnv_def)

text \<open>
  C5 (as amended).  \<open>extractName\<close> looks at the first five lines only.  It returns the first
  of them that, once trimmed, has no digit, \<open>@\<close> or \<open>+\<close>, contains neither \<open>resume\<close> nor
  \<open>cv\<close> (nor \<open>curriculum\<close>) in any letter case, has two to four tokens, every token
  title-cased, and is 3 to 50 code units long; when there is none it returns the first
  line of the document.  The name of resumeParser2.js is the first line of the document
  that has no stop character and no such word, and has two to four tokens, each token
  capitalised: the letters after the first are not looked at.  When no line is like
  that, it is the first line of the document.
\<close>

theorem name_extraction:
  "extractName E lines = extractName E (take 5 lines)
   \<and> extractName E lines =
       (case find (\<lambda>line. nameLike (properCase E) line \<and> \<not> containsCI line (js ''curriculum'')
                      \<and> 3 \<le> length line \<and> length line \<le> 50) (map trim (take 5 lines)) of
          Some line \<Rightarrow> line
        | None \<Rightarrow> trim (firstLine lines))
   \<and> name2 E (normalizeLines text) =
       Inr (case find (nameLike (capitalised E)) (normalizeLines text) of
              Some line \<Rightarrow> line
            | None \<Rightarrow> firstLine (normalizeLines text))
   \<and> (name2 E lines = Inr n \<longrightarrow> n = firstLine lines \<or> (n \<in> set lines \<and> nameLike (capitalised E) n))"
proof (intro conjI impI)
  have t: "take (min 5 (length lines)) lines = take 5 lines" by (simp add: min_def)
  have f: "(case lines of [] \<Rightarrow> [] | l # _ \<Rightarrow> trim l) = trim (firstLine lines)"
    by (cases lines) (simp_all add: firstLine_def trim_def)
  show c: "extractName E lines =
       (case find (\<lambda>line. nameLike (properCase E) line \<and> \<not> containsCI line (js ''curriculum'')
                      \<and> 3 \<le> length line \<and> length line \<le> 50) (map trim (take 5 lines)) of
          Some line \<Rightarrow> line
        | None \<Rightarrow> trim (firstLine lines))"
    by (simp add: extractName_def t f extractNameLoop_find split: option.splits)
  have h: "(case take 5 lines of [] \<Rightarrow> [] | l # _ \<Rightarrow> trim l) = (case lines of [] \<Rightarrow> [] | l # _ \<Rightarrow> trim l)"
    by (cases lines) simp_all
  have t2: "take (min 5 (length (take 5 lines))) (take 5 lines) = take 5 lines"
    by (simp add: min_def)
  show "extractName E lines = extractName E (take 5 lines)"
    unfolding extractName_def t t2 h ..
next
  show "name2 E (normalizeLines text) =
       Inr (case find (nameLike (capitalised E)) (normalizeLines text) of
              Some line \<Rightarrow> line
            | None \<Rightarrow> firstLine (normalizeLines text))"
    by (rule name2_find)
next
  assume a: "name2 E lines = Inr n"
  show "n = firstLine lines \<or> (n \<in> set lines \<and> nameLike (capitalised E) n)"
  proof (cases "findName2 E lines")
    case (Inl e)
    with a show ?thesis by (simp add: name2_def)
  next
    case (Inr r)
    show ?thesis
    proof (cases r)
      case None
      with Inr a show ?thesis by (simp add: name2_def firstLine_def)
    next
      case (Some l)
      from findName2_Some[OF Inr[unfolded Some]] Inr Some a show ?thesis
        by (auto simp: name2_def firstLine_def split: if_splits)
    qed
  qed
qed

text \<open>An instance of C5: the second line is accepted as the name.\<close>

theorem name_extraction_witness:
  "name2 sampleEnv [js ''Resume'', js ''John Smith''] = Inr (js ''John Smith'')
   \<and> nameLike (capitalised sampleEnv) (js ''John Smith'')
   \<and> extractName sampleEnv [js ''Resume'', js ''John Smith''] = js ''John Smith''
   \<and> normalizeLines (js ''Resume'' @ [10] @ js ''John Smith'') = [js ''Resume'', js ''John Smith'']
   \<and> find (nameLike (capitalised sampleEnv)) [js ''Resume'', js ''John Smith'']
        = Some (js ''John Smith'')"
proof -
  let ?T = "js ''Resume'' @ [10] @ js ''John Smith''"
  let ?L = "[js ''Resume'', js ''John Smith'']"
  have 1: "name2 sampleEnv ?L = Inr (js ''John Smith'')"
    by (simp add: name_eval split_eval rx_eval class_defs)
  have 2: "js ''John Smith'' \<noteq> firstLine ?L"
    by (simp add: firstLine_def js_def)
  have 3: "extractName sampleEnv ?L = js ''John Smith''"
    by (simp add: name_eval split_eval rx_eval class_defs)
  have 4: "normalizeLines ?T = ?L"
    by (simp add: split_eval js_def class_defs)
  note N = name_extraction[of sampleEnv ?L ?T "js ''John Smith''"]
  from N[THEN conjunct2, THEN conjunct2, THEN conjunct2] 1 2
  have 5: "nameLike (capitalised sampleEnv) (js ''John Smith'')" by simp
  have "\<not> nameLike (capitalised sampleEnv) (js ''Resume'')"
    by (simp add: name_eval split_eval rx_eval class_defs)
  with 5 have 6: "find (nameLike (capitalised sampleEnv)) ?L = Some (js ''John Smith'')" by simp
  from N[THEN conjunct2, THEN conjunct2, THEN conjunct1] 4 6
  have 7: "name2 sampleEnv ?L = Inr (js ''John Smith'')" by simp
  show ?thesis by (intro conjI 7 5 3 4 6)
qed

text \<open>
  C5 as stated fails on resumeParser2.js: \<open>JOHN SMITH\<close> is not title-cased and no line of
  the document qualifies, so the claim has the first line returned, but \<open>JOHN SMITH\<close> is
  the name; and a line after the fifth is accepted as well.
\<close>

theorem name_extraction_counterexample:
  "name2 sampleEnv [js ''Resume'', js ''JOHN SMITH''] = Inr (js ''JOHN SMITH'')
   \<and> \<not> list_ex (nameLike (properCase sampleEnv)) [js ''Resume'', js ''JOHN SMITH'']
   \<and> js ''JOHN SMITH'' \<noteq> firstLine [js ''Resume'', js ''JOHN SMITH'']
   \<and> name2 sampleEnv [js ''a'', js ''b'', js ''c'', js ''d'', js ''e'', js ''John Smith'']
        = Inr (js ''John Smith'')"
  by (simp add: name_eval split_eval rx_eval class_defs)

end
